theory Spec2Isabelle
  imports Complex_Main "HOL-Library.Multiset"
begin

section \<open>Python values used by the planner\<close>

text \<open>
  The only exception the engine can meet on well-typed input is the \<open>TypeError\<close> that
  Python raises when an offset-naive and an offset-aware \<open>datetime\<close> are ordered or
  subtracted.
\<close>

datatype error = TypeError

definition bind_err :: "error + 'a \<Rightarrow> ('a \<Rightarrow> error + 'b) \<Rightarrow> error + 'b" where
  "bind_err m f = (case m of Inl e \<Rightarrow> Inl e | Inr x \<Rightarrow> f x)"

text \<open>
  A \<open>datetime\<close> is its wall-clock reading, counted in microseconds from midnight of
  ordinal day 0, together with its \<open>tzinfo\<close>: \<open>None\<close> for a naive value, otherwise the
  fixed UTC offset in microseconds (what \<open>datetime.fromisoformat\<close> produces). A
  \<open>date\<close> is its proleptic Gregorian ordinal, a \<open>timedelta\<close> a number of microseconds,
  and a naive \<open>time\<close> the microseconds since midnight. The year range 1..9999 of the
  Python types is not modelled.
\<close>

record datetime =
  wall :: int
  tzinfo :: "int option"

type_synonym date = int
type_synonym timedelta = int
type_synonym time = int

definition minute_us :: int where "minute_us = 60000000"
definition hour_us :: int where "hour_us = 3600000000"
definition day_us :: int where "day_us = 86400000000"

text \<open>\<open>datetime.combine(d, time(h, 0), tzinfo=tz)\<close>\<close>

definition combine :: "date \<Rightarrow> time \<Rightarrow> int option \<Rightarrow> datetime" where
  "combine d t tz = \<lparr>wall = d * day_us + t, tzinfo = tz\<rparr>"

text \<open>The instant a value is ordered by: the wall clock itself, or UTC for an aware value.\<close>

definition instant :: "datetime \<Rightarrow> int" where
  "instant a = (case tzinfo a of None \<Rightarrow> wall a | Some off \<Rightarrow> wall a - off)"

text \<open>\<open>a < b\<close> on datetimes: raises when exactly one side is naive.\<close>

definition dt_lt :: "datetime \<Rightarrow> datetime \<Rightarrow> error + bool" where
  "dt_lt a b =
     (case (tzinfo a, tzinfo b) of
        (None, None) \<Rightarrow> Inr (wall a < wall b)
      | (Some x, Some y) \<Rightarrow> Inr (wall a - x < wall b - y)
      | _ \<Rightarrow> Inl TypeError)"

text \<open>\<open>a == b\<close> on datetimes never raises: a naive and an aware value are unequal.\<close>

definition dt_eq :: "datetime \<Rightarrow> datetime \<Rightarrow> bool" where
  "dt_eq a b =
     (case (tzinfo a, tzinfo b) of
        (None, None) \<Rightarrow> wall a = wall b
      | (Some x, Some y) \<Rightarrow> wall a - x = wall b - y
      | _ \<Rightarrow> False)"

text \<open>\<open>a - b\<close> on datetimes, a timedelta.\<close>

definition dt_sub :: "datetime \<Rightarrow> datetime \<Rightarrow> error + timedelta" where
  "dt_sub a b =
     (case (tzinfo a, tzinfo b) of
        (None, None) \<Rightarrow> Inr (wall a - wall b)
      | (Some x, Some y) \<Rightarrow> Inr ((wall a - x) - (wall b - y))
      | _ \<Rightarrow> Inl TypeError)"

text \<open>
  The builtins \<open>max(a, b)\<close> and \<open>min(a, b)\<close> keep the first argument unless the second
  is strictly greater (smaller).
\<close>

definition py_max :: "datetime \<Rightarrow> datetime \<Rightarrow> error + datetime" where
  "py_max a b = bind_err (dt_lt a b) (\<lambda>c. Inr (if c then b else a))"

definition py_min :: "datetime \<Rightarrow> datetime \<Rightarrow> error + datetime" where
  "py_min a b = bind_err (dt_lt b a) (\<lambda>c. Inr (if c then b else a))"

text \<open>
  \<open>x.astimezone(tz) if x.tzinfo else x.replace(tzinfo=tz)\<close>: an aware value keeps its
  instant, a naive one keeps its wall clock.
\<close>

definition to_tz :: "int \<Rightarrow> datetime \<Rightarrow> datetime" where
  "to_tz z a =
     (case tzinfo a of
        Some off \<Rightarrow> \<lparr>wall = wall a - off + z, tzinfo = Some z\<rparr>
      | None \<Rightarrow> \<lparr>wall = wall a, tzinfo = Some z\<rparr>)"

text \<open>\<open>x.time()\<close>: the naive time of day of the wall clock.\<close>

definition dt_time :: "datetime \<Rightarrow> time" where
  "dt_time a = wall a mod day_us"

text \<open>
  \<open>int(td.total_seconds() / 60)\<close>: truncation towards zero of the length in minutes.
  The source goes through two float divisions; for the lengths that occur (at most the
  eight hours of the window, in whole microseconds) a quotient that is not a whole
  number is at least \<open>1/60000000\<close> away from one, far more than the rounding error of
  a double near 480, so the truncated float is the truncated exact quotient.
\<close>

definition whole_minutes :: "timedelta \<Rightarrow> int" where
  "whole_minutes td = (if 0 \<le> td then td div minute_us else - ((- td) div minute_us))"

text \<open>Decimal rendering of a natural number, \<open>str(n)\<close>.\<close>

fun digit_char :: "nat \<Rightarrow> char" where
  "digit_char n = char_of (48 + n)"

fun str_nat :: "nat \<Rightarrow> string" where
  "str_nat n = (if n < 10 then [digit_char n] else str_nat (n div 10) @ [digit_char (n mod 10)])"

declare str_nat.simps [simp del]

text \<open>Zero padding to a width, as \<open>%H\<close>, \<open>%M\<close>, \<open>%m\<close>, \<open>%d\<close> and \<open>%Y\<close> do.\<close>

definition zero_pad :: "nat \<Rightarrow> nat \<Rightarrow> string" where
  "zero_pad w n = replicate (w - length (str_nat n)) (CHR ''0'') @ str_nat n"

text \<open>\<open>x.strftime('%H:%M')\<close>\<close>

definition strftime_HM :: "datetime \<Rightarrow> string" where
  "strftime_HM a =
     zero_pad 2 (nat (dt_time a div hour_us)) @ '':'' @
     zero_pad 2 (nat ((dt_time a mod hour_us) div minute_us))"

section \<open>Schemas\<close>

record CalendarEvent =
  start_time :: datetime
  end_time :: datetime
  summary :: string
  location :: "string option"

record FreeTimeSlot =
  slot_start_time :: datetime
  slot_end_time :: datetime
  duration_minutes :: int

record CalendarConflict =
  conflicting_events :: "CalendarEvent list"
  conflict_details :: string

record CalendarSummaryOutput =
  summary_date :: date
  events :: "CalendarEvent list"
  free_slots :: "FreeTimeSlot list"
  conflicts :: "CalendarConflict list"

text \<open>Model equality compares field by field with Python's \<open>==\<close>.\<close>

definition event_eq :: "CalendarEvent \<Rightarrow> CalendarEvent \<Rightarrow> bool" where
  "event_eq a b \<longleftrightarrow>
     dt_eq (start_time a) (start_time b) \<and> dt_eq (end_time a) (end_time b) \<and>
     summary a = summary b \<and> location a = location b"

text \<open>\<open>e in xs\<close> on a list of events\<close>

definition event_in :: "CalendarEvent \<Rightarrow> CalendarEvent list \<Rightarrow> bool" where
  "event_in e xs = list_ex (event_eq e) xs"

section \<open>The calendar agent's schedule analysis\<close>

text \<open>
  \<open>events.sort(key=lambda x: x.start_time)\<close> is a stable sort that orders the keys with
  \<open><\<close>. A comparison sort has to compare across any split of its input into two
  non-empty parts, so it raises exactly when naive and aware start times occur together.
\<close>

definition naive_start :: "CalendarEvent \<Rightarrow> bool" where
  "naive_start e = (tzinfo (start_time e) = None)"

definition sort_events :: "CalendarEvent list \<Rightarrow> error + CalendarEvent list" where
  "sort_events evs =
     (if list_ex naive_start evs \<and> list_ex (\<lambda>e. \<not> naive_start e) evs then Inl TypeError
      else Inr (sort_key (\<lambda>e. instant (start_time e)) evs))"

text \<open>
  \<open>tz_info = events[0].start_time.tzinfo if events and events[0].start_time.tzinfo else None\<close>
\<close>

definition first_tzinfo :: "CalendarEvent list \<Rightarrow> int option" where
  "first_tzinfo evs = (case evs of [] \<Rightarrow> None | e # _ \<Rightarrow> tzinfo (start_time e))"

definition min_free :: timedelta where "min_free = 15 * minute_us"

text \<open>
  The times of an event as the loop compares them: converted into \<open>tz_info\<close> when there
  is one, unchanged otherwise.
\<close>

definition in_zone :: "int option \<Rightarrow> datetime \<Rightarrow> datetime" where
  "in_zone tz a = (case tz of Some z \<Rightarrow> to_tz z a | None \<Rightarrow> a)"

text \<open>
  The append of a free slot from \<open>current_time\<close> up to \<open>until\<close>, when the gap is at
  least the minimum; the source writes these lines twice, in the loop and after it.
\<close>

definition add_slot :: "FreeTimeSlot list \<Rightarrow> datetime \<Rightarrow> datetime \<Rightarrow> error + FreeTimeSlot list" where
  "add_slot slots current_time until =
     bind_err (dt_sub until current_time) (\<lambda>free_duration.
       Inr (if min_free \<le> free_duration
            then slots @ [\<lparr>slot_start_time = current_time, slot_end_time = until,
                           duration_minutes = whole_minutes free_duration\<rparr>]
            else slots))"

text \<open>
  The body of \<open>if event_start_clamped < event_end_clamped\<close>; the state is
  \<open>(current_time, free_slots)\<close>.
\<close>

definition take_event ::
  "datetime \<times> FreeTimeSlot list \<Rightarrow> datetime \<Rightarrow> datetime \<Rightarrow> error + datetime \<times> FreeTimeSlot list" where
  "take_event st event_start_clamped event_end_clamped =
     bind_err (dt_lt (fst st) event_start_clamped) (\<lambda>gap.
     bind_err (if gap then add_slot (snd st) (fst st) event_start_clamped else Inr (snd st)) (\<lambda>slots'.
     bind_err (py_max (fst st) event_end_clamped) (\<lambda>current_time'.
       Inr (current_time', slots'))))"

text \<open>One round of the free-slot loop.\<close>

definition free_step ::
  "int option \<Rightarrow> datetime \<Rightarrow> datetime \<Rightarrow> datetime \<times> FreeTimeSlot list \<Rightarrow> CalendarEvent \<Rightarrow>
   error + datetime \<times> FreeTimeSlot list" where
  "free_step tz day_start day_end st event =
     (let event_start_aware = in_zone tz (start_time event);
          event_end_aware = in_zone tz (end_time event)
      in bind_err (py_max event_start_aware day_start) (\<lambda>event_start_clamped.
         bind_err (py_min event_end_aware day_end) (\<lambda>event_end_clamped.
         bind_err (dt_lt event_start_clamped event_end_clamped) (\<lambda>inside.
           if inside then take_event st event_start_clamped event_end_clamped else Inr st))))"

fun free_loop ::
  "int option \<Rightarrow> datetime \<Rightarrow> datetime \<Rightarrow> datetime \<times> FreeTimeSlot list \<Rightarrow> CalendarEvent list \<Rightarrow>
   error + datetime \<times> FreeTimeSlot list" where
  "free_loop tz day_start day_end st [] = Inr st"
| "free_loop tz day_start day_end st (event # rest) =
     bind_err (free_step tz day_start day_end st event) (\<lambda>st'. free_loop tz day_start day_end st' rest)"

text \<open>The check after the loop for a slot up to the end of the working day.\<close>

definition free_tail :: "datetime \<Rightarrow> datetime \<times> FreeTimeSlot list \<Rightarrow> error + FreeTimeSlot list" where
  "free_tail day_end st =
     bind_err (dt_lt (fst st) day_end) (\<lambda>remaining.
       if remaining then add_slot (snd st) (fst st) day_end else Inr (snd st))"

text \<open>The overlap test \<open>max(start1, start2) < min(end1, end2)\<close>.\<close>

definition overlap :: "CalendarEvent \<Rightarrow> CalendarEvent \<Rightarrow> error + bool" where
  "overlap event1 event2 =
     bind_err (py_max (start_time event1) (start_time event2)) (\<lambda>s.
     bind_err (py_min (end_time event1) (end_time event2)) (\<lambda>e. dt_lt s e))"

text \<open>The scan of the conflicts found so far for one that holds both events.\<close>

definition conflict_exists :: "CalendarEvent \<Rightarrow> CalendarEvent \<Rightarrow> CalendarConflict list \<Rightarrow> bool" where
  "conflict_exists event1 event2 cs =
     list_ex (\<lambda>c. event_in event1 (conflicting_events c) \<and> event_in event2 (conflicting_events c)) cs"

definition overlap_details :: "CalendarEvent \<Rightarrow> CalendarEvent \<Rightarrow> string" where
  "overlap_details event1 event2 =
     ''Overlap between '' @ [CHR 0x27] @ summary event1 @ [CHR 0x27] @ '' ('' @
     strftime_HM (start_time event1) @ ''-'' @ strftime_HM (end_time event1) @ '') and '' @
     [CHR 0x27] @ summary event2 @ [CHR 0x27] @ '' ('' @
     strftime_HM (start_time event2) @ ''-'' @ strftime_HM (end_time event2) @ '')''"

definition new_conflict :: "CalendarEvent \<Rightarrow> CalendarEvent \<Rightarrow> CalendarConflict" where
  "new_conflict event1 event2 =
     \<lparr>conflicting_events = [event1, event2], conflict_details = overlap_details event1 event2\<rparr>"

text \<open>The inner loop over \<open>j\<close> for a fixed \<open>event1 = events[i]\<close>, then the outer loop over \<open>i\<close>.\<close>

fun conflict_inner ::
  "CalendarEvent \<Rightarrow> CalendarEvent list \<Rightarrow> CalendarConflict list \<Rightarrow> error + CalendarConflict list" where
  "conflict_inner event1 [] cs = Inr cs"
| "conflict_inner event1 (event2 # rest) cs =
     bind_err (overlap event1 event2) (\<lambda>ov.
       conflict_inner event1 rest
         (if ov \<and> \<not> conflict_exists event1 event2 cs then cs @ [new_conflict event1 event2] else cs))"

fun conflict_outer :: "CalendarEvent list \<Rightarrow> CalendarConflict list \<Rightarrow> error + CalendarConflict list" where
  "conflict_outer [] cs = Inr cs"
| "conflict_outer (event1 # rest) cs =
     bind_err (conflict_inner event1 rest cs) (conflict_outer rest)"

definition analyze_schedule :: "date \<Rightarrow> CalendarEvent list \<Rightarrow> error + CalendarSummaryOutput" where
  "analyze_schedule target_date evs =
     bind_err (sort_events evs) (\<lambda>sorted_events.
       let tz_info = first_tzinfo sorted_events;
           day_start_time = combine target_date (9 * hour_us) tz_info;
           day_end_time = combine target_date (17 * hour_us) tz_info
       in bind_err (free_loop tz_info day_start_time day_end_time (day_start_time, []) sorted_events) (\<lambda>st.
          bind_err (free_tail day_end_time st) (\<lambda>slots.
          bind_err (conflict_outer sorted_events []) (\<lambda>cs.
            Inr \<lparr>summary_date = target_date, events = sorted_events,
                 free_slots = slots, conflicts = cs\<rparr>))))"

section \<open>Plan schemas\<close>

record EmailTask =
  description :: string
  priority :: string
  due_date :: "date option"
  source_email_id :: "string option"

record PrioritizedTaskListOutput =
  tasks :: "EmailTask list"

record WeatherInfo =
  weather_time :: "time option"
  weather_description :: string
  temperature_celsius :: "real option"
  weather_location :: "string option"

record TrafficInfo =
  route_description :: "string option"
  delay_minutes :: "int option"
  condition :: string
  recommendation :: "string option"

datatype recommendation_details =
  Weather WeatherInfo | Traffic TrafficInfo | Note string

record ContextRecommendation =
  rec_type :: string
  rec_details :: recommendation_details
  impact_time :: "datetime option"

record ContextOutput =
  recommendations :: "ContextRecommendation list"

datatype item_details =
  EventDetails CalendarEvent | TaskDetails EmailTask
  | RecommendationDetails ContextRecommendation | TextDetails string

record PlanItem =
  item_time :: time
  item_type :: string
  details :: item_details
  item_priority :: "string option"

record ConsolidatedDailyPlanOutput =
  plan_date :: date
  plan :: "PlanItem list"
  plan_summary :: "string option"

text \<open>
  Constructing a \<open>ConsolidatedDailyPlanOutput\<close> runs the validator
  \<open>sort_plan_by_time\<close> on the \<open>plan\<close> field: \<open>sorted(v, key=lambda item: item.time)\<close>.
\<close>

definition sort_plan_by_time :: "PlanItem list \<Rightarrow> PlanItem list" where
  "sort_plan_by_time v = sort_key item_time v"

definition new_ConsolidatedDailyPlanOutput ::
  "date \<Rightarrow> PlanItem list \<Rightarrow> string option \<Rightarrow> ConsolidatedDailyPlanOutput" where
  "new_ConsolidatedDailyPlanOutput d p s =
     \<lparr>plan_date = d, plan = sort_plan_by_time p, plan_summary = s\<rparr>"

section \<open>Rendering a date\<close>

text \<open>
  \<open>target_date.strftime('%Y-%m-%d')\<close>. With dates kept as ordinals, the calendar fields
  come from the standard library's conversion of an ordinal to year, month and day.
  The year is padded to four digits; for the years below 1000 some C libraries do not
  pad, and nothing below depends on it.
\<close>

definition days_before_month :: "int list" where
  "days_before_month = [0, 31, 59, 90, 120, 151, 181, 212, 243, 273, 304, 334]"

definition days_in_month :: "int list" where
  "days_in_month = [31, 28, 31, 30, 31, 30, 31, 31, 30, 31, 30, 31]"

definition ord2ymd :: "date \<Rightarrow> int \<times> int \<times> int" where
  "ord2ymd ordinal =
     (let n = ordinal - 1;
          n400 = n div 146097; n = n mod 146097;
          n100 = n div 36524; n = n mod 36524;
          n4 = n div 1461; n = n mod 1461;
          n1 = n div 365; n = n mod 365;
          year = n400 * 400 + 1 + n100 * 100 + n4 * 4 + n1
      in if n1 = 4 \<or> n100 = 4 then (year - 1, 12, 31)
         else
           let leapyear = (n1 = 3 \<and> (n4 \<noteq> 24 \<or> n100 = 3));
               month = (n + 50) div 32;
               preceding = days_before_month ! nat (month - 1) + (if month > 2 \<and> leapyear then 1 else 0)
           in if preceding > n
              then let month' = month - 1;
                       preceding' = preceding -
                         (days_in_month ! nat (month' - 1) + (if month' = 2 \<and> leapyear then 1 else 0))
                   in (year, month', n - preceding' + 1)
              else (year, month, n - preceding + 1))"

definition strftime_Ymd :: "date \<Rightarrow> string" where
  "strftime_Ymd d =
     (case ord2ymd d of (y, m, dd) \<Rightarrow>
        zero_pad 4 (nat y) @ ''-'' @ zero_pad 2 (nat m) @ ''-'' @ zero_pad 2 (nat dd))"

section \<open>Combining the agents' outputs\<close>

text \<open>\<open>priority_order.get(t.priority, 99)\<close>\<close>

definition priority_order :: "string \<Rightarrow> nat" where
  "priority_order p =
     (if p = ''urgent'' then 0 else if p = ''high'' then 1
      else if p = ''medium'' then 2 else if p = ''low'' then 3 else 99)"

definition task_times :: "time list" where
  "task_times = [9 * hour_us, 11 * hour_us, 14 * hour_us, 16 * hour_us]"

text \<open>\<open>x + timedelta(minutes=k)\<close> on a datetime\<close>

definition dt_add :: "datetime \<Rightarrow> timedelta \<Rightarrow> datetime" where
  "dt_add a td = a\<lparr>wall := wall a + td\<rparr>"

text \<open>
  \<open>(datetime.combine(date.today(), task_times[time_idx % len(task_times)])
     + timedelta(minutes=time_idx)).time()\<close>; \<open>today\<close> is read from the clock.
\<close>

definition assigned_time :: "date \<Rightarrow> nat \<Rightarrow> time" where
  "assigned_time today time_idx =
     dt_time (dt_add (combine today (task_times ! (time_idx mod length task_times)) None)
                     (int time_idx * minute_us))"

definition event_item :: "CalendarEvent \<Rightarrow> PlanItem" where
  "event_item event =
     \<lparr>item_time = dt_time (start_time event), item_type = ''event'',
      details = EventDetails event, item_priority = None\<rparr>"

definition task_item :: "date \<Rightarrow> nat \<Rightarrow> EmailTask \<Rightarrow> PlanItem" where
  "task_item today time_idx task =
     \<lparr>item_time = assigned_time today time_idx, item_type = ''task'',
      details = TaskDetails task, item_priority = Some (priority task)\<rparr>"

definition recommendation_item :: "ContextRecommendation \<Rightarrow> PlanItem" where
  "recommendation_item r =
     \<lparr>item_time = (case impact_time r of Some t \<Rightarrow> dt_time t | None \<Rightarrow> 7 * hour_us),
      item_type = ''recommendation'', details = RecommendationDetails r, item_priority = None\<rparr>"

text \<open>The loop over the sorted tasks with its running \<open>time_idx\<close>.\<close>

fun place_tasks :: "date \<Rightarrow> nat \<Rightarrow> EmailTask list \<Rightarrow> PlanItem list" where
  "place_tasks today time_idx [] = []"
| "place_tasks today time_idx (task # rest) =
     task_item today time_idx task # place_tasks today (time_idx + 1) rest"

definition sorted_tasks :: "EmailTask list \<Rightarrow> EmailTask list" where
  "sorted_tasks ts = sort_key (\<lambda>t. priority_order (priority t)) ts"

definition event_items :: "CalendarSummaryOutput option \<Rightarrow> PlanItem list" where
  "event_items calendar_summary =
     (case calendar_summary of None \<Rightarrow> [] | Some c \<Rightarrow> map event_item (events c))"

definition task_items :: "date \<Rightarrow> PrioritizedTaskListOutput option \<Rightarrow> PlanItem list" where
  "task_items today task_list =
     (case task_list of None \<Rightarrow> [] | Some l \<Rightarrow> place_tasks today 0 (sorted_tasks (tasks l)))"

definition recommendation_items :: "ContextOutput option \<Rightarrow> PlanItem list" where
  "recommendation_items context_info =
     (case context_info of None \<Rightarrow> [] | Some c \<Rightarrow> map recommendation_item (recommendations c))"

definition plan_text ::
  "date \<Rightarrow> CalendarSummaryOutput option \<Rightarrow> PrioritizedTaskListOutput option \<Rightarrow>
   ContextOutput option \<Rightarrow> string" where
  "plan_text target_date calendar_summary task_list context_info =
     ''Plan for '' @ strftime_Ymd target_date @ ''. '' @
     ''Events: '' @ str_nat (case calendar_summary of None \<Rightarrow> 0 | Some c \<Rightarrow> length (events c)) @ ''. '' @
     ''Tasks: '' @ str_nat (case task_list of None \<Rightarrow> 0 | Some l \<Rightarrow> length (tasks l)) @ ''. '' @
     ''Recommendations: '' @
       str_nat (case context_info of None \<Rightarrow> 0 | Some c \<Rightarrow> length (recommendations c)) @ ''.''"

text \<open>
  \<open>combine_agent_outputs\<close>; the first argument is the value of \<open>date.today()\<close>. The three
  groups are appended in turn, the list is sorted in place by time, and the result is
  built through the validating constructor.
\<close>

definition combine_agent_outputs ::
  "date \<Rightarrow> date \<Rightarrow> CalendarSummaryOutput option \<Rightarrow> PrioritizedTaskListOutput option \<Rightarrow>
   ContextOutput option \<Rightarrow> ConsolidatedDailyPlanOutput" where
  "combine_agent_outputs today target_date calendar_summary task_list context_info =
     (let plan_items = event_items calendar_summary @ task_items today task_list @
                       recommendation_items context_info;
          plan_items = sort_key item_time plan_items
      in new_ConsolidatedDailyPlanOutput target_date plan_items
           (Some (plan_text target_date calendar_summary task_list context_info)))"

section \<open>Sample inputs\<close>

text \<open>Wednesday 2024-05-01 and a few meetings on it, used to exercise the theorems.\<close>

definition sample_day :: date where
  "sample_day = 739007"

definition naive_at :: "int \<Rightarrow> int \<Rightarrow> int \<Rightarrow> datetime" where
  "naive_at h m s =
     \<lparr>wall = sample_day * day_us + h * hour_us + m * minute_us + s * 1000000, tzinfo = None\<rparr>"

definition aware_at :: "int \<Rightarrow> int \<Rightarrow> int \<Rightarrow> datetime" where
  "aware_at offset_hours h m =
     \<lparr>wall = sample_day * day_us + h * hour_us + m * minute_us,
      tzinfo = Some (offset_hours * hour_us)\<rparr>"

definition meeting :: "string \<Rightarrow> datetime \<Rightarrow> datetime \<Rightarrow> CalendarEvent" where
  "meeting title s e = \<lparr>start_time = s, end_time = e, summary = title, location = None\<rparr>"

definition sample_task :: "string \<Rightarrow> string \<Rightarrow> EmailTask" where
  "sample_task what p = \<lparr>description = what, priority = p, due_date = None, source_email_id = None\<rparr>"

definition sample_calendar :: CalendarSummaryOutput where
  "sample_calendar =
     \<lparr>summary_date = sample_day,
      events = [meeting ''Standup'' (naive_at 9 0 0) (naive_at 10 0 0),
                meeting ''Lunch'' (naive_at 13 0 0) (naive_at 14 0 0)],
      free_slots = [], conflicts = []\<rparr>"

definition sample_tasks :: PrioritizedTaskListOutput where
  "sample_tasks = \<lparr>tasks = [sample_task ''file report'' ''low'', sample_task ''call bank'' ''urgent'']\<rparr>"

definition sample_context :: ContextOutput where
  "sample_context =
     \<lparr>recommendations = [\<lparr>rec_type = ''general'', rec_details = Note ''take an umbrella'',
                          impact_time = None\<rparr>]\<rparr>"

definition many_tasks :: PrioritizedTaskListOutput where
  "many_tasks = \<lparr>tasks = replicate 1441 (sample_task ''reply'' ''medium'')\<rparr>"

definition scenario :: "CalendarEvent list" where
  "scenario =
     [meeting ''A'' (naive_at 9 0 0) (naive_at 10 0 0),
      meeting ''B'' (naive_at 9 30 0) (naive_at 10 30 0),
      meeting ''C'' (naive_at 13 0 0) (naive_at 14 0 0)]"

definition scenario_summary :: CalendarSummaryOutput where
  "scenario_summary =
     \<lparr>summary_date = sample_day, events = scenario,
      free_slots =
        [\<lparr>slot_start_time = naive_at 10 30 0, slot_end_time = naive_at 13 0 0, duration_minutes = 150\<rparr>,
         \<lparr>slot_start_time = naive_at 14 0 0, slot_end_time = naive_at 17 0 0, duration_minutes = 180\<rparr>],
      conflicts =
        [\<lparr>conflicting_events = [meeting ''A'' (naive_at 9 0 0) (naive_at 10 0 0),
                                meeting ''B'' (naive_at 9 30 0) (naive_at 10 30 0)],
          conflict_details = ''Overlap between '' @ [CHR 0x27] @ ''A'' @ [CHR 0x27] @
            '' (09:00-10:00) and '' @ [CHR 0x27] @ ''B'' @ [CHR 0x27] @ '' (09:30-10:30)''\<rparr>]\<rparr>"

definition late_start_summary :: CalendarSummaryOutput where
  "late_start_summary =
     \<lparr>summary_date = sample_day,
      events = [meeting ''Workshop'' (naive_at 9 5 0) (naive_at 17 0 0)],
      free_slots = [], conflicts = []\<rparr>"

definition broken_meeting :: CalendarEvent where
  "broken_meeting = meeting ''Broken'' (naive_at 11 0 0) (naive_at 10 45 0)"

definition early_broken_meeting :: CalendarEvent where
  "early_broken_meeting = meeting ''Broken'' (aware_at 0 6 0) (aware_at 0 5 0)"

definition call_meeting :: CalendarEvent where
  "call_meeting = meeting ''Call'' (aware_at 5 12 0) (aware_at 5 13 0)"

definition twice_booked :: "CalendarEvent list" where
  "twice_booked =
     [meeting ''B'' (naive_at 8 30 0) (naive_at 9 30 0),
      meeting ''A'' (naive_at 9 0 0) (naive_at 10 0 0),
      meeting ''A'' (naive_at 9 0 0) (naive_at 10 0 0)]"

section \<open>Auxiliary notions for the properties\<close>

text \<open>A slot whose stored length is the whole minutes between its two ends.\<close>

definition slot_length_ok :: "FreeTimeSlot \<Rightarrow> bool" where
  "slot_length_ok f \<longleftrightarrow>
     (\<exists>td. dt_sub (slot_end_time f) (slot_start_time f) = Inr td \<and> min_free \<le> td \<and>
           duration_minutes f = td div minute_us)"

text \<open>
  The span of instants of a free slot and of an event as the loop sees it, the window
  of a summary, and what it means for an instant to lie in a slot or to be covered by an
  event clamped to the window.
\<close>

definition slot_span :: "FreeTimeSlot \<Rightarrow> int \<times> int" where
  "slot_span f = (instant (slot_start_time f), instant (slot_end_time f))"

definition event_span :: "int option \<Rightarrow> CalendarEvent \<Rightarrow> int \<times> int" where
  "event_span tz e = (instant (in_zone tz (start_time e)), instant (in_zone tz (end_time e)))"

definition window_lo :: "CalendarSummaryOutput \<Rightarrow> int" where
  "window_lo s = instant (combine (summary_date s) (9 * hour_us) (first_tzinfo (events s)))"

definition window_hi :: "CalendarSummaryOutput \<Rightarrow> int" where
  "window_hi s = instant (combine (summary_date s) (17 * hour_us) (first_tzinfo (events s)))"

definition covered :: "CalendarSummaryOutput \<Rightarrow> CalendarEvent \<Rightarrow> int \<Rightarrow> bool" where
  "covered s e t \<longleftrightarrow>
     window_lo s \<le> t \<and> t < window_hi s \<and>
     fst (event_span (first_tzinfo (events s)) e) \<le> t \<and>
     t < snd (event_span (first_tzinfo (events s)) e)"

definition in_slot :: "FreeTimeSlot \<Rightarrow> int \<Rightarrow> bool" where
  "in_slot f t \<longleftrightarrow> fst (slot_span f) \<le> t \<and> t < snd (slot_span f)"

text \<open>
  The free-slot loop read on instants only: the cursor and the spans of the slots
  emitted so far, run over the spans of the events. The proofs go through it.
\<close>

fun sweep :: "int \<Rightarrow> int \<Rightarrow> int \<times> (int \<times> int) list \<Rightarrow> (int \<times> int) list \<Rightarrow> int \<times> (int \<times> int) list" where
  "sweep lo hi st [] = st"
| "sweep lo hi st (iv # rest) =
     (if max (fst iv) lo < min (snd iv) hi
      then sweep lo hi
             (max (fst st) (min (snd iv) hi),
              if fst st < max (fst iv) lo \<and> min_free \<le> max (fst iv) lo - fst st
              then snd st @ [(fst st, max (fst iv) lo)] else snd st) rest
      else sweep lo hi st rest)"

text \<open>
  A span \<open>g\<close> and an event span \<open>iv\<close> clamped to the window share no instant: \<open>g\<close> ends
  before the clamped event begins, or begins after it ends, or the clamped event is empty.
\<close>

definition apart :: "int \<Rightarrow> int \<Rightarrow> int \<times> int \<Rightarrow> int \<times> int \<Rightarrow> bool" where
  "apart lo hi g iv \<longleftrightarrow>
     snd g \<le> max (fst iv) lo \<or> min (snd iv) hi \<le> fst g \<or> min (snd iv) hi \<le> max (fst iv) lo"

text \<open>
  An event with \<open>start_time >= end_time\<close>, and a list without such events.
\<close>

definition degenerate :: "CalendarEvent \<Rightarrow> bool" where
  "degenerate e \<longleftrightarrow> dt_lt (start_time e) (end_time e) = Inr False"

definition proper :: "CalendarEvent list \<Rightarrow> CalendarEvent list" where
  "proper evs = filter (\<lambda>e. \<not> degenerate e) evs"

text \<open>
  A conflict as the scan builds it for two events that do overlap, and the conflicts of
  a list when nothing is suppressed: one for each overlapping pair, in the order of the
  double loop.
\<close>

definition genuine :: "CalendarConflict \<Rightarrow> bool" where
  "genuine c \<longleftrightarrow> (\<exists>a b. c = new_conflict a b \<and> overlap a b = Inr True)"

fun all_overlaps :: "CalendarEvent list \<Rightarrow> CalendarConflict list" where
  "all_overlaps [] = []"
| "all_overlaps (e # rest) =
     map (new_conflict e) (filter (\<lambda>x. overlap e x = Inr True) rest) @ all_overlaps rest"

text \<open>A list whose times are all naive or all aware.\<close>

definition uniform :: "CalendarEvent list \<Rightarrow> bool" where
  "uniform evs \<longleftrightarrow>
     list_all (\<lambda>e. tzinfo (start_time e) = None \<and> tzinfo (end_time e) = None) evs \<or>
     list_all (\<lambda>e. tzinfo (start_time e) \<noteq> None \<and> tzinfo (end_time e) \<noteq> None) evs"

section \<open>Properties\<close>

lemma bind_err_Inr: "bind_err m f = Inr y \<longleftrightarrow> (\<exists>x. m = Inr x \<and> f x = Inr y)"
  by (cases m) (auto simp: bind_err_def)

subsection \<open>Stored slot lengths\<close>

lemma free_step_length_ok:
  assumes "free_step tz ds de st e = Inr st'" "\<forall>f\<in>set (snd st). slot_length_ok f"
  shows "\<forall>f\<in>set (snd st'). slot_length_ok f"
  using assms unfolding free_step_def take_event_def add_slot_def Let_def
  by (auto simp: bind_err_Inr slot_length_ok_def whole_minutes_def min_free_def minute_us_def
           split: if_splits)

lemma free_loop_length_ok:
  "free_loop tz ds de st evs = Inr st' \<Longrightarrow> \<forall>f\<in>set (snd st). slot_length_ok f \<Longrightarrow>
   \<forall>f\<in>set (snd st'). slot_length_ok f"
proof (induction evs arbitrary: st)
  case Nil
  then show ?case by simp
next
  case (Cons e evs)
  from Cons.prems(1) obtain st1 where step: "free_step tz ds de st e = Inr st1"
    and rest: "free_loop tz ds de st1 evs = Inr st'"
    by (auto simp: bind_err_Inr)
  from free_step_length_ok[OF step Cons.prems(2)] Cons.IH[OF rest] show ?case by blast
qed

lemma free_tail_length_ok:
  assumes "free_tail de st = Inr slots" "\<forall>f\<in>set (snd st). slot_length_ok f"
  shows "\<forall>f\<in>set slots. slot_length_ok f"
  using assms unfolding free_tail_def add_slot_def
  by (auto simp: bind_err_Inr slot_length_ok_def whole_minutes_def min_free_def minute_us_def
           split: if_splits)

lemma analyze_schedule_length_ok:
  assumes "analyze_schedule d evs = Inr s"
  shows "\<forall>f\<in>set (free_slots s). slot_length_ok f"
proof -
  from assms obtain sorted_events st slots cs where
    loop: "free_loop (first_tzinfo sorted_events)
             (combine d (9 * hour_us) (first_tzinfo sorted_events))
             (combine d (17 * hour_us) (first_tzinfo sorted_events))
             (combine d (9 * hour_us) (first_tzinfo sorted_events), []) sorted_events = Inr st"
    and tail: "free_tail (combine d (17 * hour_us) (first_tzinfo sorted_events)) st = Inr slots"
    and s: "s = \<lparr>summary_date = d, events = sorted_events, free_slots = slots, conflicts = cs\<rparr>"
    unfolding analyze_schedule_def Let_def by (auto simp: bind_err_Inr)
  from free_loop_length_ok[OF loop] have "\<forall>f\<in>set (snd st). slot_length_ok f" by simp
  from free_tail_length_ok[OF tail this] s show ?thesis by simp
qed

text \<open>
  C10. Every free slot that \<open>analyze_schedule\<close> emits stores as \<open>duration_minutes\<close> the
  length \<open>end_time - start_time\<close> in whole minutes: the microseconds of the difference
  divided by those of a minute, rounded down. The difference is never negative (it is
  at least the fifteen-minute minimum), so rounding down is truncation.
\<close>

theorem free_slot_duration_truncates:
  assumes "analyze_schedule d evs = Inr s" and "f \<in> set (free_slots s)"
  shows "\<exists>td. dt_sub (slot_end_time f) (slot_start_time f) = Inr td \<and> 0 \<le> td \<and>
              duration_minutes f = td div minute_us \<and>
              duration_minutes f * minute_us \<le> td \<and> td < (duration_minutes f + 1) * minute_us"
proof -
  from analyze_schedule_length_ok[OF assms(1)] assms(2) obtain td where
    td: "dt_sub (slot_end_time f) (slot_start_time f) = Inr td" "min_free \<le> td"
        "duration_minutes f = td div minute_us"
    unfolding slot_length_ok_def by blast
  have "0 \<le> td" using td(2) by (simp add: min_free_def minute_us_def)
  moreover have "td div minute_us * minute_us \<le> td" "td < (td div minute_us + 1) * minute_us"
    unfolding minute_us_def by presburger+
  ultimately show ?thesis using td by auto
qed

lemma analyze_one_long_meeting:
  "analyze_schedule sample_day [meeting ''Review'' (naive_at 9 0 0) (naive_at 10 30 30)] =
     Inr \<lparr>summary_date = sample_day,
          events = [meeting ''Review'' (naive_at 9 0 0) (naive_at 10 30 30)],
          free_slots = [\<lparr>slot_start_time = naive_at 10 30 30, slot_end_time = naive_at 17 0 0,
                         duration_minutes = 389\<rparr>],
          conflicts = []\<rparr>"
  by code_simp

theorem free_slot_duration_truncates_witness:
  "analyze_schedule sample_day [meeting ''Review'' (naive_at 9 0 0) (naive_at 10 30 30)] =
     Inr \<lparr>summary_date = sample_day,
          events = [meeting ''Review'' (naive_at 9 0 0) (naive_at 10 30 30)],
          free_slots = [\<lparr>slot_start_time = naive_at 10 30 30, slot_end_time = naive_at 17 0 0,
                         duration_minutes = 389\<rparr>],
          conflicts = []\<rparr> \<and>
   (\<exists>td. dt_sub (naive_at 17 0 0) (naive_at 10 30 30) = Inr td \<and> 0 \<le> td \<and>
         389 = td div minute_us \<and> 389 * minute_us \<le> td \<and> td < (389 + 1) * minute_us)"
proof -
  have slot: "\<lparr>slot_start_time = naive_at 10 30 30, slot_end_time = naive_at 17 0 0,
                duration_minutes = 389\<rparr>
              \<in> set (free_slots \<lparr>summary_date = sample_day,
                    events = [meeting ''Review'' (naive_at 9 0 0) (naive_at 10 30 30)],
                    free_slots = [\<lparr>slot_start_time = naive_at 10 30 30,
                                   slot_end_time = naive_at 17 0 0, duration_minutes = 389\<rparr>],
                    conflicts = []\<rparr>)"
    by simp
  from free_slot_duration_truncates[OF analyze_one_long_meeting slot]
  have "\<exists>td. dt_sub (naive_at 17 0 0) (naive_at 10 30 30) = Inr td \<and> 0 \<le> td \<and>
         389 = td div minute_us \<and> 389 * minute_us \<le> td \<and> td < (389 + 1) * minute_us"
    by simp
  with analyze_one_long_meeting show ?thesis by blast
qed

subsection \<open>The consolidated plan\<close>

lemma length_place_tasks: "length (place_tasks today i ts) = length ts"
  by (induction ts arbitrary: i) auto

text \<open>
  C7. Whatever inputs are present or absent, the plan of \<open>combine_agent_outputs\<close> is in
  ascending order of time, it is a rearrangement of the events' items followed by the
  tasks' and the recommendations' items, and the items of any one time stand in the
  order in which they were appended. The constructor leaves any item list it is given
  sorted in the same stable way.
\<close>

theorem plan_sorted_by_time:
  "sorted (map item_time (plan (combine_agent_outputs today d cs tks ci))) \<and>
   (\<forall>k. filter (\<lambda>x. item_time x = k) (plan (combine_agent_outputs today d cs tks ci)) =
        filter (\<lambda>x. item_time x = k)
          (event_items cs @ task_items today tks @ recommendation_items ci)) \<and>
   mset (plan (combine_agent_outputs today d cs tks ci)) =
     mset (event_items cs @ task_items today tks @ recommendation_items ci) \<and>
   sorted (map item_time (plan (new_ConsolidatedDailyPlanOutput d' items s))) \<and>
   (\<forall>k. filter (\<lambda>x. item_time x = k) (plan (new_ConsolidatedDailyPlanOutput d' items s)) =
        filter (\<lambda>x. item_time x = k) items)"
  unfolding combine_agent_outputs_def new_ConsolidatedDailyPlanOutput_def sort_plan_by_time_def Let_def
  by (simp add: sort_key_stable)

lemma sample_plan_order:
  "map (\<lambda>x. (item_time x, item_type x))
       (plan (combine_agent_outputs sample_day sample_day
                (Some sample_calendar) (Some sample_tasks) (Some sample_context))) =
     [(7 * hour_us, ''recommendation''), (9 * hour_us, ''event''), (9 * hour_us, ''task''),
      (11 * hour_us + minute_us, ''task''), (13 * hour_us, ''event'')]"
  by code_simp

theorem plan_sorted_by_time_witness:
  "sorted (map item_time (plan (combine_agent_outputs sample_day sample_day
                                  (Some sample_calendar) (Some sample_tasks) (Some sample_context)))) \<and>
   sorted (map item_time (plan (combine_agent_outputs sample_day sample_day None None None)))"
  using plan_sorted_by_time[of sample_day sample_day "Some sample_calendar" "Some sample_tasks"
          "Some sample_context"]
        plan_sorted_by_time[of sample_day sample_day None None None]
  by blast

text \<open>
  C8. For each of the eight ways in which the three inputs can be present or absent,
  \<open>combine_agent_outputs\<close> returns a plan (the function has no failing branch). The plan
  has as many items as the present inputs hold, an absent input contributing none, and
  the summary reads \<open>Plan for <date>. Events: <n>. Tasks: <n>. Recommendations: <n>.\<close>
  with the date as \<open>%Y-%m-%d\<close> and each count the size of its input, zero when absent.
\<close>

theorem plan_for_absent_inputs:
  "plan_summary (combine_agent_outputs today d cs tks ci) =
     Some (''Plan for '' @ strftime_Ymd d @
           ''. Events: '' @ str_nat (case cs of None \<Rightarrow> 0 | Some c \<Rightarrow> length (events c)) @
           ''. Tasks: '' @ str_nat (case tks of None \<Rightarrow> 0 | Some l \<Rightarrow> length (tasks l)) @
           ''. Recommendations: '' @
             str_nat (case ci of None \<Rightarrow> 0 | Some c \<Rightarrow> length (recommendations c)) @ ''.'') \<and>
   length (plan (combine_agent_outputs today d cs tks ci)) =
     (case cs of None \<Rightarrow> 0 | Some c \<Rightarrow> length (events c)) +
     (case tks of None \<Rightarrow> 0 | Some l \<Rightarrow> length (tasks l)) +
     (case ci of None \<Rightarrow> 0 | Some c \<Rightarrow> length (recommendations c)) \<and>
   event_items None = [] \<and> task_items today None = [] \<and> recommendation_items None = [] \<and>
   plan (combine_agent_outputs today d None None None) = []"
  unfolding combine_agent_outputs_def new_ConsolidatedDailyPlanOutput_def sort_plan_by_time_def Let_def
  by (simp add: plan_text_def event_items_def task_items_def recommendation_items_def
        length_place_tasks sorted_tasks_def split: option.splits)

lemma sample_date_text: "strftime_Ymd sample_day = ''2024-05-01''"
  by code_simp

lemma sample_counts: "str_nat 0 = ''0''" "str_nat 2 = ''2''"
  by code_simp+

lemma sample_calendar_size: "length (events sample_calendar) = 2"
  by (simp add: sample_calendar_def)

theorem plan_for_absent_inputs_witness:
  "plan_summary (combine_agent_outputs sample_day sample_day (Some sample_calendar) None None) =
     Some ''Plan for 2024-05-01. Events: 2. Tasks: 0. Recommendations: 0.'' \<and>
   length (plan (combine_agent_outputs sample_day sample_day (Some sample_calendar) None None)) = 2 \<and>
   plan_summary (combine_agent_outputs sample_day sample_day None None None) =
     Some ''Plan for 2024-05-01. Events: 0. Tasks: 0. Recommendations: 0.''"
  using plan_for_absent_inputs[of sample_day sample_day "Some sample_calendar" None None]
        plan_for_absent_inputs[of sample_day sample_day None None None]
  by (simp add: sample_date_text sample_counts sample_calendar_size)

subsection \<open>Placeholder times of the tasks\<close>

lemma place_tasks_nth:
  "i < length ts \<Longrightarrow> place_tasks today k ts ! i = task_item today (k + i) (ts ! i)"
proof (induction ts arbitrary: i k)
  case Nil then show ?case by simp
next
  case (Cons t ts)
  show ?case
  proof (cases i)
    case 0 then show ?thesis by simp
  next
    case (Suc n)
    with Cons.prems have "n < length ts" by simp
    from Cons.IH[OF this, of "k + 1"] Suc show ?thesis by simp
  qed
qed

lemma rotation_nth:
  "task_times ! (i mod length task_times) =
     (if i mod 4 = 0 then 540 else if i mod 4 = 1 then 660 else if i mod 4 = 2 then 840 else 960) * minute_us"
proof -
  have "i mod 4 = 0 \<or> i mod 4 = 1 \<or> i mod 4 = 2 \<or> i mod 4 = 3" by presburger
  then show ?thesis
    by (auto simp: task_times_def hour_us_def minute_us_def)
qed

lemma assigned_time_minutes:
  "assigned_time today i =
     (((if i mod 4 = 0 then 540 else if i mod 4 = 1 then 660 else if i mod 4 = 2 then 840 else 960)
        + int i) mod 1440) * minute_us"
proof -
  define b :: int where "b = (if i mod 4 = 0 then 540 else if i mod 4 = 1 then 660 else if i mod 4 = 2 then 840 else 960)"
  have "assigned_time today i = (today * day_us + b * minute_us + int i * minute_us) mod day_us"
    unfolding assigned_time_def dt_time_def dt_add_def combine_def rotation_nth b_def by simp
  also have "today * day_us + b * minute_us + int i * minute_us = (today * 1440 + b + int i) * minute_us"
    by (simp add: day_us_def minute_us_def algebra_simps)
  also have "day_us = 1440 * minute_us" by (simp add: day_us_def minute_us_def)
  also have "(today * 1440 + b + int i) * minute_us mod (1440 * minute_us) = ((today * 1440 + b + int i) mod 1440) * minute_us"
    by simp
  also have "(today * 1440 + b + int i) mod 1440 = (b + int i) mod 1440"
    by (simp add: add.assoc)
  finally show ?thesis unfolding b_def .
qed

lemma assigned_time_distinct:
  assumes "i < j" "j < i + 1440"
  shows "assigned_time today i \<noteq> assigned_time today j"
proof
  assume eq: "assigned_time today i = assigned_time today j"
  define b :: "nat \<Rightarrow> int" where
    "b = (\<lambda>i. if i mod 4 = 0 then 540 else if i mod 4 = 1 then 660 else if i mod 4 = 2 then 840 else 960)"
  have b4: "b k mod 4 = 0" for k by (simp add: b_def)
  from eq have m: "(b i + int i) mod 1440 = (b j + int j) mod 1440"
    unfolding assigned_time_minutes b_def by (simp add: minute_us_def)
  have "(b i + int i) mod 1440 mod 4 = (b i + int i) mod 4"
       "(b j + int j) mod 1440 mod 4 = (b j + int j) mod 4"
    by (simp_all add: mod_mod_cancel)
  with m have "(b i + int i) mod 4 = (b j + int j) mod 4" by simp
  with b4[of i] b4[of j] have "int i mod 4 = int j mod 4" by presburger
  then have "int (i mod 4) = int (j mod 4)" by (simp add: of_nat_mod)
  then have "i mod 4 = j mod 4" by (simp only: of_nat_eq_iff)
  then have "b i = b j" by (simp add: b_def)
  with m have "(b i + int j) mod 1440 = (b i + int i) mod 1440" by simp
  then have "1440 dvd (b i + int j) - (b i + int i)"
    by (simp only: mod_eq_dvd_iff)
  then have "1440 dvd int j - int i" by simp
  moreover have "0 < int j - int i" using assms by simp
  ultimately have "1440 \<le> int j - int i" by (rule zdvd_imp_le)
  with assms show False by simp
qed

lemma assigned_time_wraps: "assigned_time today (i + 1440) = assigned_time today i"
proof -
  define b :: "nat \<Rightarrow> int" where
    "b = (\<lambda>i. if i mod 4 = 0 then 540 else if i mod 4 = 1 then 660 else if i mod 4 = 2 then 840 else 960)"
  have "(i + 1440) mod 4 = i mod 4" by presburger
  then have "b (i + 1440) = b i" by (simp add: b_def)
  moreover have "(b i + int (i + 1440)) mod 1440 = (b i + int i) mod 1440"
    by (simp add: add.assoc[symmetric])
  ultimately have "(b (i + 1440) + int (i + 1440)) mod 1440 = (b i + int i) mod 1440" by simp
  then show ?thesis unfolding assigned_time_minutes b_def by simp
qed

lemma task_items_nth:
  assumes "k < length (tasks l)"
  shows "task_items today (Some l) ! k = task_item today k (sorted_tasks (tasks l) ! k)"
  using assms by (simp add: task_items_def place_tasks_nth sorted_tasks_def)

lemma task_items_details:
  "map details (task_items today (Some l)) = map TaskDetails (sorted_tasks (tasks l))"
proof -
  have "map details (place_tasks today k ts) = map TaskDetails ts" for k ts
    by (induction ts arbitrary: k) (auto simp: task_item_def)
  then show ?thesis by (simp add: task_items_def)
qed

lemma priority_order_values:
  "priority_order ''urgent'' = 0" "priority_order ''high'' = 1"
  "priority_order ''medium'' = 2" "priority_order ''low'' = 3"
  by (simp_all add: priority_order_def)

lemma priority_order_unknown:
  "p \<notin> {''urgent'', ''high'', ''medium'', ''low''} \<Longrightarrow> priority_order p = 99"
  by (simp add: priority_order_def)

text \<open>
  What the placement does: the items of a present task list are its tasks in the stable
  order of \<open>priority_order\<close> (urgent, high, medium, low, anything else last); the task
  at every position \<open>k\<close> of that order, counted from 0, gets the rotation entry
  \<open>k mod 4\<close> of 09:00, 11:00, 14:00, 16:00 plus \<open>k\<close> minutes, taken as a time of day, that
  is modulo 24 hours; and two tasks fewer than 1440 positions apart get different times.
\<close>

lemma task_items_length: "length (task_items today (Some l)) = length (tasks l)"
  by (simp add: task_items_def length_place_tasks sorted_tasks_def)

lemma task_items_in_priority_order:
  "map details (task_items today (Some l)) = map TaskDetails (sorted_tasks (tasks l)) \<and>
   sorted (map (\<lambda>t. priority_order (priority t)) (sorted_tasks (tasks l))) \<and>
   (\<forall>k. filter (\<lambda>t. priority_order (priority t) = k) (sorted_tasks (tasks l)) =
        filter (\<lambda>t. priority_order (priority t) = k) (tasks l))"
proof -
  have "sorted (map (\<lambda>t. priority_order (priority t)) (sorted_tasks (tasks l)))"
    by (simp add: sorted_tasks_def)
  moreover have "filter (\<lambda>t. priority_order (priority t) = k) (sorted_tasks (tasks l)) =
              filter (\<lambda>t. priority_order (priority t) = k) (tasks l)" for k
    unfolding sorted_tasks_def by (rule sort_key_stable)
  ultimately show ?thesis using task_items_details[of today l] by simp
qed

lemma task_items_time:
  assumes "k < length (tasks l)"
  shows "item_time (task_items today (Some l) ! k) =
           (task_times ! (k mod 4) + int k * minute_us) mod day_us"
proof -
  have "assigned_time today k = (task_times ! (k mod 4) + int k * minute_us) mod day_us"
    unfolding assigned_time_def dt_time_def dt_add_def combine_def
    by (simp add: task_times_def add.assoc day_us_def)
  moreover have "item_time (task_items today (Some l) ! k) = assigned_time today k"
    using assms by (simp add: task_items_nth task_item_def)
  ultimately show ?thesis by simp
qed

lemma task_times_distinct_within_a_day:
  assumes "i < j" and "j < length (tasks l)" and "j < i + 1440"
  shows "item_time (task_items today (Some l) ! i) \<noteq> item_time (task_items today (Some l) ! j)"
proof -
  have "i < length (tasks l)" using assms by simp
  then have "item_time (task_items today (Some l) ! i) = assigned_time today i"
    by (simp add: task_items_nth task_item_def)
  moreover have "item_time (task_items today (Some l) ! j) = assigned_time today j"
    using assms(2) by (simp add: task_items_nth task_item_def)
  ultimately show ?thesis using assigned_time_distinct[OF assms(1,3), of today] by simp
qed

lemma sample_tasks_placed:
  "map (\<lambda>x. (item_time x, item_priority x)) (task_items sample_day (Some sample_tasks)) =
     [(9 * hour_us, Some ''urgent''), (11 * hour_us + minute_us, Some ''low'')]"
  by code_simp

text \<open>
  C3. The claim is that the minutes added with the running index keep the task times
  apart, so that no two tasks ever receive the same time of day; the comment in the loop
  says the same. The minutes are added to a datetime whose date is then dropped, so the
  time comes round again after a day: in a list of 1441 tasks the task at position 0 and
  the task at position 1440 are both placed at 09:00.
\<close>

theorem task_times_collide_after_a_day:
  "item_time (task_items sample_day (Some many_tasks) ! 0) =
     item_time (task_items sample_day (Some many_tasks) ! 1440) \<and>
   item_time (task_items sample_day (Some many_tasks) ! 0) = 9 * hour_us \<and>
   length (task_items sample_day (Some many_tasks)) = 1441"
proof -
  have len: "length (tasks many_tasks) = 1441" by (simp add: many_tasks_def)
  have "item_time (task_items sample_day (Some many_tasks) ! 0) = assigned_time sample_day 0"
    "item_time (task_items sample_day (Some many_tasks) ! 1440) = assigned_time sample_day (0 + 1440)"
    using len by (simp_all add: task_items_nth task_item_def)
  moreover have "assigned_time sample_day 0 = 9 * hour_us"
    unfolding assigned_time_minutes by (simp add: hour_us_def minute_us_def)
  moreover have "length (task_items sample_day (Some many_tasks)) = 1441"
    using len by (simp add: task_items_def length_place_tasks sorted_tasks_def)
  ultimately show ?thesis using assigned_time_wraps[of sample_day 0] by simp
qed

subsection \<open>Comparisons read on instants\<close>

lemma dt_lt_instant: "dt_lt a b = Inr c \<Longrightarrow> c = (instant a < instant b)"
  by (auto simp: dt_lt_def instant_def split: option.splits)

lemma dt_sub_instant: "dt_sub a b = Inr td \<Longrightarrow> td = instant a - instant b"
  by (auto simp: dt_sub_def instant_def split: option.splits)

lemma py_max_instant:
  "py_max a b = Inr m \<Longrightarrow> instant m = max (instant a) (instant b) \<and> (m = a \<or> m = b)"
  by (auto simp: py_max_def bind_err_Inr dest!: dt_lt_instant)

lemma py_min_instant:
  "py_min a b = Inr m \<Longrightarrow> instant m = min (instant a) (instant b) \<and> (m = a \<or> m = b)"
  by (auto simp: py_min_def bind_err_Inr dest!: dt_lt_instant)

lemma overlap_instant:
  assumes "overlap e1 e2 = Inr b"
  shows "b = (max (instant (start_time e1)) (instant (start_time e2)) <
              min (instant (end_time e1)) (instant (end_time e2)))"
proof -
  from assms obtain s e where s: "py_max (start_time e1) (start_time e2) = Inr s"
    and e: "py_min (end_time e1) (end_time e2) = Inr e" and lt: "dt_lt s e = Inr b"
    by (auto simp: overlap_def bind_err_Inr)
  from py_max_instant[OF s] py_min_instant[OF e] dt_lt_instant[OF lt] show ?thesis by simp
qed

subsection \<open>Mixed naive and aware times\<close>

text \<open>
  C4. The claim is that the analysis returns a summary for every well-formed event list,
  lists that mix naive and aware times included. The free-slot loop does convert each
  event's times into \<open>tz_info\<close>, but the sort before it and the conflict scan after it
  compare the raw times: a list with one naive and one aware start time raises.
\<close>

theorem analysis_raises_on_mixed_starts:
  "analyze_schedule sample_day
     [meeting ''Standup'' (naive_at 9 0 0) (naive_at 10 0 0),
      meeting ''Call'' (aware_at 0 11 0) (aware_at 0 12 0)] = Inl TypeError"
  by code_simp

text \<open>So does a list whose start times agree and whose end times do not.\<close>

lemma analysis_raises_on_mixed_ends:
  "analyze_schedule sample_day
     [meeting ''Standup'' (aware_at 0 9 0) (naive_at 10 0 0),
      meeting ''Call'' (aware_at 0 11 0) (aware_at 0 12 0)] = Inl TypeError"
  "analyze_schedule sample_day
     [meeting ''Standup'' (naive_at 9 0 0) (aware_at 0 10 0)] = Inl TypeError"
  by code_simp+

subsection \<open>Input order\<close>

lemma sort_events_perm:
  assumes "mset evs' = mset evs" "distinct (map (\<lambda>e. instant (start_time e)) evs)"
  shows "sort_events evs' = sort_events evs"
proof -
  from assms(1) have set: "set evs' = set evs" by (rule mset_eq_setD)
  from assms(2) have inj: "inj_on (\<lambda>e. instant (start_time e)) (set evs')"
    unfolding set by (simp add: distinct_map)
  have perm: "mset evs' = mset (sort_key (\<lambda>e. instant (start_time e)) evs)"
    using assms(1) by simp
  have "sort_key (\<lambda>e. instant (start_time e)) evs' = sort_key (\<lambda>e. instant (start_time e)) evs"
    by (rule sort_key_inj_key_eq[OF perm inj]) simp
  then show ?thesis unfolding sort_events_def list_ex_iff set by simp
qed

text \<open>
  C6, as the code has it. The result depends on the input only through the stable
  time-sorted list. When no two events start at the same instant that list is the same
  for every permutation of the input, and so is the result (a summary or the error).
\<close>

theorem analysis_same_for_permutations:
  assumes "mset evs' = mset evs" and "distinct (map (\<lambda>e. instant (start_time e)) evs)"
  shows "analyze_schedule d evs' = analyze_schedule d evs"
  unfolding analyze_schedule_def sort_events_perm[OF assms] ..

theorem analysis_same_for_permutations_witness:
  "mset [meeting ''Lunch'' (naive_at 13 0 0) (naive_at 14 0 0),
         meeting ''Standup'' (naive_at 9 0 0) (naive_at 10 0 0)] =
   mset [meeting ''Standup'' (naive_at 9 0 0) (naive_at 10 0 0),
         meeting ''Lunch'' (naive_at 13 0 0) (naive_at 14 0 0)] \<and>
   distinct (map (\<lambda>e. instant (start_time e))
     [meeting ''Standup'' (naive_at 9 0 0) (naive_at 10 0 0),
      meeting ''Lunch'' (naive_at 13 0 0) (naive_at 14 0 0)]) \<and>
   analyze_schedule sample_day
     [meeting ''Lunch'' (naive_at 13 0 0) (naive_at 14 0 0),
      meeting ''Standup'' (naive_at 9 0 0) (naive_at 10 0 0)] =
   analyze_schedule sample_day
     [meeting ''Standup'' (naive_at 9 0 0) (naive_at 10 0 0),
      meeting ''Lunch'' (naive_at 13 0 0) (naive_at 14 0 0)]"
proof -
  have perm: "mset [meeting ''Lunch'' (naive_at 13 0 0) (naive_at 14 0 0),
         meeting ''Standup'' (naive_at 9 0 0) (naive_at 10 0 0)] =
   mset [meeting ''Standup'' (naive_at 9 0 0) (naive_at 10 0 0),
         meeting ''Lunch'' (naive_at 13 0 0) (naive_at 14 0 0)]"
    by simp
  have dist: "distinct (map (\<lambda>e. instant (start_time e))
     [meeting ''Standup'' (naive_at 9 0 0) (naive_at 10 0 0),
      meeting ''Lunch'' (naive_at 13 0 0) (naive_at 14 0 0)])"
    by (simp add: meeting_def naive_at_def instant_def hour_us_def)
  from analysis_same_for_permutations[OF perm dist, of sample_day] perm dist
  show ?thesis by blast
qed

text \<open>
  Two events that start together keep their input order in the sorted list, so the
  claim as written fails: swapping them swaps them in the returned events.
\<close>

lemma tie_in_input_order:
  "bind_err (analyze_schedule sample_day
       [meeting ''Standup'' (naive_at 9 0 0) (naive_at 10 0 0),
        meeting ''Review'' (naive_at 9 0 0) (naive_at 11 0 0)])
     (\<lambda>s. Inr (map summary (events s))) = Inr [''Standup'', ''Review'']"
  "bind_err (analyze_schedule sample_day
       [meeting ''Review'' (naive_at 9 0 0) (naive_at 11 0 0),
        meeting ''Standup'' (naive_at 9 0 0) (naive_at 10 0 0)])
     (\<lambda>s. Inr (map summary (events s))) = Inr [''Review'', ''Standup'']"
  by code_simp+

theorem analysis_depends_on_order_of_ties:
  "mset [meeting ''Review'' (naive_at 9 0 0) (naive_at 11 0 0),
         meeting ''Standup'' (naive_at 9 0 0) (naive_at 10 0 0)] =
   mset [meeting ''Standup'' (naive_at 9 0 0) (naive_at 10 0 0),
         meeting ''Review'' (naive_at 9 0 0) (naive_at 11 0 0)] \<and>
   analyze_schedule sample_day
     [meeting ''Review'' (naive_at 9 0 0) (naive_at 11 0 0),
      meeting ''Standup'' (naive_at 9 0 0) (naive_at 10 0 0)] \<noteq>
   analyze_schedule sample_day
     [meeting ''Standup'' (naive_at 9 0 0) (naive_at 10 0 0),
      meeting ''Review'' (naive_at 9 0 0) (naive_at 11 0 0)]"
proof -
  have "analyze_schedule sample_day
     [meeting ''Review'' (naive_at 9 0 0) (naive_at 11 0 0),
      meeting ''Standup'' (naive_at 9 0 0) (naive_at 10 0 0)] \<noteq>
   analyze_schedule sample_day
     [meeting ''Standup'' (naive_at 9 0 0) (naive_at 10 0 0),
      meeting ''Review'' (naive_at 9 0 0) (naive_at 11 0 0)]"
  proof
    assume "analyze_schedule sample_day
     [meeting ''Review'' (naive_at 9 0 0) (naive_at 11 0 0),
      meeting ''Standup'' (naive_at 9 0 0) (naive_at 10 0 0)] =
     analyze_schedule sample_day
     [meeting ''Standup'' (naive_at 9 0 0) (naive_at 10 0 0),
      meeting ''Review'' (naive_at 9 0 0) (naive_at 11 0 0)]"
    with tie_in_input_order show False by simp
  qed
  then show ?thesis by simp
qed

subsection \<open>The sweep over instants\<close>

lemma sweep_skip:
  "\<not> max (fst iv) lo < min (snd iv) hi \<Longrightarrow> sweep lo hi st (iv # rest) = sweep lo hi st rest"
  by (subst sweep.simps) (rule if_not_P)

lemma sweep_take:
  "max (fst iv) lo < min (snd iv) hi \<Longrightarrow>
   sweep lo hi st (iv # rest) =
     sweep lo hi
       (max (fst st) (min (snd iv) hi),
        if fst st < max (fst iv) lo \<and> min_free \<le> max (fst iv) lo - fst st
        then snd st @ [(fst st, max (fst iv) lo)] else snd st) rest"
  by (subst sweep.simps) (rule if_P)

lemma sweep_shape:
  assumes "sweep lo hi st ivs = st'" "lo \<le> fst st" "fst st \<le> hi"
    "\<forall>g\<in>set (snd st). lo \<le> fst g \<and> min_free \<le> snd g - fst g \<and> snd g \<le> fst st"
    "sorted_wrt (\<lambda>g h. snd g \<le> fst h) (snd st)"
  shows "fst st \<le> fst st' \<and> fst st' \<le> hi \<and>
         (\<forall>g\<in>set (snd st'). lo \<le> fst g \<and> min_free \<le> snd g - fst g \<and> snd g \<le> fst st') \<and>
         sorted_wrt (\<lambda>g h. snd g \<le> fst h) (snd st')"
  using assms
proof (induction ivs arbitrary: st)
  case Nil
  then show ?case by simp
next
  case (Cons iv ivs)
  show ?case
  proof (cases "max (fst iv) lo < min (snd iv) hi")
    case False
    have "sweep lo hi st ivs = st'" using Cons.prems(1) unfolding sweep_skip[OF False] .
    from Cons.IH[OF this Cons.prems(2-5)] show ?thesis .
  next
    case True
    define st1 where "st1 = (max (fst st) (min (snd iv) hi),
              if fst st < max (fst iv) lo \<and> min_free \<le> max (fst iv) lo - fst st
              then snd st @ [(fst st, max (fst iv) lo)] else snd st)"
    have run: "sweep lo hi st1 ivs = st'" using Cons.prems(1) unfolding sweep_take[OF True] st1_def .
    have a: "lo \<le> fst st1" "fst st1 \<le> hi" "fst st \<le> fst st1"
      using Cons.prems(2,3) by (auto simp: st1_def)
    have b: "\<forall>g\<in>set (snd st1). lo \<le> fst g \<and> min_free \<le> snd g - fst g \<and> snd g \<le> fst st1"
      using Cons.prems(2,4) True by (auto simp: st1_def)
    have c: "sorted_wrt (\<lambda>g h. snd g \<le> fst h) (snd st1)"
      using Cons.prems(4,5) by (auto simp: st1_def sorted_wrt_append)
    from Cons.IH[OF run a(1,2) b c] a(3) show ?thesis by auto
  qed
qed

lemma sweep_apart:
  assumes "sweep lo hi st ivs = st'" "sorted (map fst ivs)"
    "\<forall>g\<in>set (snd st). \<forall>iv\<in>set seen. apart lo hi g iv"
    "\<forall>iv\<in>set seen. max (fst iv) lo < min (snd iv) hi \<longrightarrow> min (snd iv) hi \<le> fst st"
    "\<forall>g\<in>set (snd st). \<forall>iv\<in>set ivs. snd g \<le> max (fst iv) lo"
  shows "(\<forall>g\<in>set (snd st'). \<forall>iv\<in>set (seen @ ivs). apart lo hi g iv) \<and>
         (\<forall>iv\<in>set (seen @ ivs). max (fst iv) lo < min (snd iv) hi \<longrightarrow> min (snd iv) hi \<le> fst st')"
  using assms
proof (induction ivs arbitrary: st seen)
  case Nil
  then show ?case by simp
next
  case (Cons iv ivs)
  have sorted_rest: "sorted (map fst ivs)" and later: "\<forall>iv'\<in>set ivs. fst iv \<le> fst iv'"
    using Cons.prems(2) by auto
  show ?case
  proof (cases "max (fst iv) lo < min (snd iv) hi")
    case False
    have run: "sweep lo hi st ivs = st'" using Cons.prems(1) unfolding sweep_skip[OF False] .
    have 1: "\<forall>g\<in>set (snd st). \<forall>iv'\<in>set (seen @ [iv]). apart lo hi g iv'"
      using Cons.prems(3) False by (auto simp: apart_def)
    have 2: "\<forall>iv'\<in>set (seen @ [iv]). max (fst iv') lo < min (snd iv') hi \<longrightarrow> min (snd iv') hi \<le> fst st"
      using Cons.prems(4) False by auto
    have 3: "\<forall>g\<in>set (snd st). \<forall>iv\<in>set ivs. snd g \<le> max (fst iv) lo"
      using Cons.prems(5) by auto
    from Cons.IH[OF run sorted_rest 1 2 3] show ?thesis by simp
  next
    case True
    define st1 where "st1 = (max (fst st) (min (snd iv) hi),
              if fst st < max (fst iv) lo \<and> min_free \<le> max (fst iv) lo - fst st
              then snd st @ [(fst st, max (fst iv) lo)] else snd st)"
    have run: "sweep lo hi st1 ivs = st'" using Cons.prems(1) unfolding sweep_take[OF True] st1_def .
    have 1: "\<forall>g\<in>set (snd st1). \<forall>iv'\<in>set (seen @ [iv]). apart lo hi g iv'"
      using Cons.prems(3,4,5) by (auto simp: st1_def apart_def)
    have 2: "\<forall>iv'\<in>set (seen @ [iv]). max (fst iv') lo < min (snd iv') hi \<longrightarrow> min (snd iv') hi \<le> fst st1"
      using Cons.prems(4) by (auto simp: st1_def)
    have 3: "\<forall>g\<in>set (snd st1). \<forall>iv\<in>set ivs. snd g \<le> max (fst iv) lo"
      using Cons.prems(5) later by (auto simp: st1_def)
    from Cons.IH[OF run sorted_rest 1 2 3] show ?thesis by simp
  qed
qed


lemma min_free_pos: "0 < min_free"
  by (simp add: min_free_def minute_us_def)

lemma sweep_complete:
  assumes "sweep lo hi st ivs = st'"
    "\<forall>a b. lo \<le> a \<and> b \<le> hi \<and> min_free \<le> b - a \<and> a < fst st \<and>
           (\<forall>iv\<in>set seen. apart lo hi (a, b) iv) \<longrightarrow>
           (\<exists>g\<in>set (snd st). fst g \<le> a \<and> b \<le> snd g)"
  shows "\<forall>a b. lo \<le> a \<and> b \<le> hi \<and> min_free \<le> b - a \<and> a < fst st' \<and>
           (\<forall>iv\<in>set (seen @ ivs). apart lo hi (a, b) iv) \<longrightarrow>
           (\<exists>g\<in>set (snd st'). fst g \<le> a \<and> b \<le> snd g)"
  using assms
proof (induction ivs arbitrary: st seen)
  case Nil
  then show ?case by simp
next
  case (Cons iv ivs)
  show ?case
  proof (cases "max (fst iv) lo < min (snd iv) hi")
    case False
    have run: "sweep lo hi st ivs = st'" using Cons.prems(1) unfolding sweep_skip[OF False] .
    have "\<forall>a b. lo \<le> a \<and> b \<le> hi \<and> min_free \<le> b - a \<and> a < fst st \<and>
           (\<forall>iv'\<in>set (seen @ [iv]). apart lo hi (a, b) iv') \<longrightarrow>
           (\<exists>g\<in>set (snd st). fst g \<le> a \<and> b \<le> snd g)"
      using Cons.prems(2) by simp
    from Cons.IH[OF run this] show ?thesis by simp
  next
    case True
    define st1 where "st1 = (max (fst st) (min (snd iv) hi),
              if fst st < max (fst iv) lo \<and> min_free \<le> max (fst iv) lo - fst st
              then snd st @ [(fst st, max (fst iv) lo)] else snd st)"
    have run: "sweep lo hi st1 ivs = st'" using Cons.prems(1) unfolding sweep_take[OF True] st1_def .
    have "\<exists>g\<in>set (snd st1). fst g \<le> a \<and> b \<le> snd g"
      if ab: "lo \<le> a" "b \<le> hi" "min_free \<le> b - a" "a < fst st1"
        and free: "\<forall>iv'\<in>set (seen @ [iv]). apart lo hi (a, b) iv'" for a b
    proof (cases "a < fst st")
      case True
      with ab free Cons.prems(2) have "\<exists>g\<in>set (snd st). fst g \<le> a \<and> b \<le> snd g" by simp
      then show ?thesis by (auto simp: st1_def)
    next
      case False
      with ab(4) have "a < min (snd iv) hi" by (auto simp: st1_def)
      moreover from free have "apart lo hi (a, b) iv" by simp
      ultimately have "b \<le> max (fst iv) lo" using True by (auto simp: apart_def)
      with False ab(3) min_free_pos
      have "fst st < max (fst iv) lo \<and> min_free \<le> max (fst iv) lo - fst st" "fst st \<le> a"
        by linarith+
      with \<open>b \<le> max (fst iv) lo\<close> show ?thesis by (simp add: st1_def)
    qed
    then have "\<forall>a b. lo \<le> a \<and> b \<le> hi \<and> min_free \<le> b - a \<and> a < fst st1 \<and>
           (\<forall>iv'\<in>set (seen @ [iv]). apart lo hi (a, b) iv') \<longrightarrow>
           (\<exists>g\<in>set (snd st1). fst g \<le> a \<and> b \<le> snd g)"
      by blast
    from Cons.IH[OF run this] show ?thesis by simp
  qed
qed

lemma add_slot_span:
  assumes "add_slot slots c u = Inr slots'"
  shows "map slot_span slots' =
           (if min_free \<le> instant u - instant c then map slot_span slots @ [(instant c, instant u)]
            else map slot_span slots)"
  using assms unfolding add_slot_def
  by (auto simp: bind_err_Inr slot_span_def dest!: dt_sub_instant)

lemma take_event_sweep:
  assumes "take_event st sc ec = Inr st'"
  shows "instant (fst st') = max (instant (fst st)) (instant ec) \<and>
         map slot_span (snd st') =
           (if instant (fst st) < instant sc \<and> min_free \<le> instant sc - instant (fst st)
            then map slot_span (snd st) @ [(instant (fst st), instant sc)]
            else map slot_span (snd st))"
proof -
  from assms obtain gap slots' cur' where
    gap: "dt_lt (fst st) sc = Inr gap" and
    slots: "(if gap then add_slot (snd st) (fst st) sc else Inr (snd st)) = Inr slots'" and
    cur: "py_max (fst st) ec = Inr cur'" and st': "st' = (cur', slots')"
    unfolding take_event_def by (auto simp: bind_err_Inr)
  from dt_lt_instant[OF gap] have g: "gap = (instant (fst st) < instant sc)" .
  show ?thesis
  proof (cases gap)
    case True
    with slots have "add_slot (snd st) (fst st) sc = Inr slots'" by simp
    from add_slot_span[OF this] py_max_instant[OF cur] True g st' show ?thesis by simp
  next
    case False
    with slots have "slots' = snd st" by simp
    with py_max_instant[OF cur] False g st' show ?thesis by simp
  qed
qed

lemma free_step_sweep:
  assumes "free_step tz ds de st e = Inr st'"
  shows "sweep (instant ds) (instant de) (instant (fst st), map slot_span (snd st)) [event_span tz e] =
           (instant (fst st'), map slot_span (snd st'))"
proof -
  from assms obtain sc ec inside where
    sc: "py_max (in_zone tz (start_time e)) ds = Inr sc" and
    ec: "py_min (in_zone tz (end_time e)) de = Inr ec" and
    inside: "dt_lt sc ec = Inr inside" and
    body: "(if inside then take_event st sc ec else Inr st) = Inr st'"
    unfolding free_step_def Let_def by (auto simp: bind_err_Inr)
  from py_max_instant[OF sc] py_min_instant[OF ec] have
    isc: "instant sc = max (fst (event_span tz e)) (instant ds)" and
    iec: "instant ec = min (snd (event_span tz e)) (instant de)"
    by (simp_all add: event_span_def)
  from dt_lt_instant[OF inside] have i: "inside = (instant sc < instant ec)" .
  show ?thesis
  proof (cases inside)
    case True
    with body have "take_event st sc ec = Inr st'" by simp
    from take_event_sweep[OF this] have
      "instant (fst st') = max (instant (fst st)) (instant ec)"
      "map slot_span (snd st') =
           (if instant (fst st) < instant sc \<and> min_free \<le> instant sc - instant (fst st)
            then map slot_span (snd st) @ [(instant (fst st), instant sc)]
            else map slot_span (snd st))" by simp_all
    moreover from True i have "max (fst (event_span tz e)) (instant ds) < min (snd (event_span tz e)) (instant de)"
      unfolding isc iec by simp
    ultimately show ?thesis unfolding sweep_take[OF \<open>max (fst (event_span tz e)) (instant ds) < min (snd (event_span tz e)) (instant de)\<close>] isc iec
      by simp
  next
    case False
    with body have "st' = st" by simp
    moreover from False i have "\<not> max (fst (event_span tz e)) (instant ds) < min (snd (event_span tz e)) (instant de)"
      unfolding isc iec by simp
    ultimately show ?thesis unfolding sweep_skip[OF \<open>\<not> max (fst (event_span tz e)) (instant ds) < min (snd (event_span tz e)) (instant de)\<close>]
      by simp
  qed
qed

lemma sweep_one_then_rest:
  "sweep lo hi st (iv # rest) = sweep lo hi (sweep lo hi st [iv]) rest"
proof (cases "max (fst iv) lo < min (snd iv) hi")
  case True
  show ?thesis unfolding sweep_take[OF True] sweep.simps(1) ..
next
  case False
  show ?thesis unfolding sweep_skip[OF False] sweep.simps(1) ..
qed

lemma free_loop_sweep:
  "free_loop tz ds de st evs = Inr st' \<Longrightarrow>
   sweep (instant ds) (instant de) (instant (fst st), map slot_span (snd st)) (map (event_span tz) evs) =
     (instant (fst st'), map slot_span (snd st'))"
proof (induction evs arbitrary: st)
  case Nil
  then show ?case by simp
next
  case (Cons e evs)
  from Cons.prems obtain st1 where step: "free_step tz ds de st e = Inr st1"
    and rest: "free_loop tz ds de st1 evs = Inr st'"
    by (auto simp: bind_err_Inr)
  have "sweep (instant ds) (instant de) (instant (fst st), map slot_span (snd st)) (map (event_span tz) (e # evs)) =
        sweep (instant ds) (instant de) (sweep (instant ds) (instant de) (instant (fst st), map slot_span (snd st)) [event_span tz e]) (map (event_span tz) evs)"
    unfolding list.map by (rule sweep_one_then_rest)
  with free_step_sweep[OF step] Cons.IH[OF rest] show ?case by simp
qed

lemma free_tail_span:
  assumes "free_tail de st = Inr slots"
  shows "map slot_span slots =
           (if instant (fst st) < instant de \<and> min_free \<le> instant de - instant (fst st)
            then map slot_span (snd st) @ [(instant (fst st), instant de)]
            else map slot_span (snd st))"
proof -
  from assms obtain remaining where r: "dt_lt (fst st) de = Inr remaining"
    and body: "(if remaining then add_slot (snd st) (fst st) de else Inr (snd st)) = Inr slots"
    unfolding free_tail_def by (auto simp: bind_err_Inr)
  from dt_lt_instant[OF r] have g: "remaining = (instant (fst st) < instant de)" .
  show ?thesis
  proof (cases remaining)
    case True
    with body have "add_slot (snd st) (fst st) de = Inr slots" by simp
    from add_slot_span[OF this] True g show ?thesis by simp
  next
    case False
    with body g min_free_pos show ?thesis by auto
  qed
qed


subsection \<open>Free slots and the working-hours window\<close>

lemma apart_no_common_instant:
  "apart lo hi (a, b) iv \<Longrightarrow> a \<le> t \<Longrightarrow> t < b \<Longrightarrow> \<not> (lo \<le> t \<and> t < hi \<and> fst iv \<le> t \<and> t < snd iv)"
  by (auto simp: apart_def)

lemma no_common_instant_apart:
  assumes "a < b" "\<forall>t. a \<le> t \<and> t < b \<longrightarrow> \<not> (lo \<le> t \<and> t < hi \<and> fst iv \<le> t \<and> t < snd iv)"
  shows "apart lo hi (a, b) iv"
proof (rule ccontr)
  assume "\<not> apart lo hi (a, b) iv"
  then have *: "max (fst iv) lo < b" "a < min (snd iv) hi" "max (fst iv) lo < min (snd iv) hi"
    by (auto simp: apart_def)
  define t where "t = max a (max (fst iv) lo)"
  from * assms(1) have "a \<le> t" "t < b" "lo \<le> t" "t < hi" "fst iv \<le> t" "t < snd iv"
    by (auto simp: t_def)
  with assms(2) show False by blast
qed

lemma window_order: "instant (combine d (9 * hour_us) tz) \<le> instant (combine d (17 * hour_us) tz)"
  by (simp add: instant_def combine_def hour_us_def split: option.splits)

lemma sort_events_sorted:
  assumes "sort_events evs = Inr sorted_events"
  shows "sorted_events = sort_key (\<lambda>e. instant (start_time e)) evs"
  using assms by (simp add: sort_events_def split: if_splits)

lemma in_zone_start:
  assumes "sort_events evs = Inr sorted_events" "e \<in> set sorted_events"
  shows "instant (in_zone (first_tzinfo sorted_events) (start_time e)) = instant (start_time e)"
proof (cases "first_tzinfo sorted_events")
  case None
  then show ?thesis by (simp add: in_zone_def)
next
  case (Some z)
  then obtain e0 rest where se: "sorted_events = e0 # rest" and z: "tzinfo (start_time e0) = Some z"
    by (auto simp: first_tzinfo_def split: list.splits)
  from sort_events_sorted[OF assms(1)] have set: "set sorted_events = set evs" by simp
  from se z set have "e0 \<in> set evs" "\<not> naive_start e0" by (auto simp: naive_start_def)
  with assms(1) have "\<not> list_ex naive_start evs"
    by (auto simp: sort_events_def list_ex_iff split: if_splits)
  with assms(2) set have "tzinfo (start_time e) \<noteq> None"
    by (auto simp: list_ex_iff naive_start_def)
  then show ?thesis using Some
    by (auto simp: in_zone_def to_tz_def instant_def)
qed

lemma analyze_schedule_parts:
  assumes "analyze_schedule d evs = Inr s"
  obtains st where
    "sort_events evs = Inr (events s)" "summary_date s = d"
    "free_loop (first_tzinfo (events s)) (combine d (9 * hour_us) (first_tzinfo (events s)))
       (combine d (17 * hour_us) (first_tzinfo (events s)))
       (combine d (9 * hour_us) (first_tzinfo (events s)), []) (events s) = Inr st"
    "free_tail (combine d (17 * hour_us) (first_tzinfo (events s))) st = Inr (free_slots s)"
    "conflict_outer (events s) [] = Inr (conflicts s)"
  using assms unfolding analyze_schedule_def Let_def by (auto simp: bind_err_Inr)


lemma free_slot_spans:
  assumes "analyze_schedule d evs = Inr s"
  defines "lo \<equiv> window_lo s" and "hi \<equiv> window_hi s"
    and "ivs \<equiv> map (event_span (first_tzinfo (events s))) (events s)"
  shows "(\<forall>g\<in>set (map slot_span (free_slots s)). lo \<le> fst g \<and> min_free \<le> snd g - fst g \<and> snd g \<le> hi) \<and>
         sorted_wrt (\<lambda>g h. snd g \<le> fst h) (map slot_span (free_slots s)) \<and>
         (\<forall>g\<in>set (map slot_span (free_slots s)). \<forall>iv\<in>set ivs. apart lo hi g iv) \<and>
         (\<forall>a b. lo \<le> a \<and> b \<le> hi \<and> min_free \<le> b - a \<and> (\<forall>iv\<in>set ivs. apart lo hi (a, b) iv) \<longrightarrow>
                (\<exists>g\<in>set (map slot_span (free_slots s)). fst g \<le> a \<and> b \<le> snd g))"
proof -
  define tz where "tz = first_tzinfo (events s)"
  define ds where "ds = combine d (9 * hour_us) tz"
  define de where "de = combine d (17 * hour_us) tz"
  from analyze_schedule_parts[OF assms(1)] obtain st where
    srt: "sort_events evs = Inr (events s)" and dt: "summary_date s = d" and
    loop: "free_loop tz ds de (ds, []) (events s) = Inr st" and
    tail: "free_tail de st = Inr (free_slots s)"
    unfolding tz_def ds_def de_def by blast
  have lo: "lo = instant ds" and hi: "hi = instant de"
    by (simp_all add: lo_def hi_def window_lo_def window_hi_def ds_def de_def tz_def dt)
  have lohi: "lo \<le> hi" unfolding lo hi ds_def de_def by (rule window_order)
  define c where "c = instant (fst st)"
  define out where "out = map slot_span (snd st)"
  have run: "sweep lo hi (lo, []) ivs = (c, out)"
    using free_loop_sweep[OF loop] by (simp add: lo hi ivs_def tz_def c_def out_def)
  have fin: "map slot_span (free_slots s) =
      (if c < hi \<and> min_free \<le> hi - c then out @ [(c, hi)] else out)"
    using free_tail_span[OF tail] by (simp add: c_def out_def hi)
  have starts: "map fst ivs = map (\<lambda>e. instant (start_time e)) (events s)"
    unfolding ivs_def using in_zone_start[OF srt] by (simp add: event_span_def)
  have srtd: "sorted (map fst ivs)"
    unfolding starts sort_events_sorted[OF srt] by simp
  from sweep_shape[OF run] lohi have
    shape: "lo \<le> c" "c \<le> hi" "\<forall>g\<in>set out. lo \<le> fst g \<and> min_free \<le> snd g - fst g \<and> snd g \<le> c"
      "sorted_wrt (\<lambda>g h. snd g \<le> fst h) out"
    by simp_all
  from sweep_apart[OF run srtd, of "[]"] have
    ap: "\<forall>g\<in>set out. \<forall>iv\<in>set ivs. apart lo hi g iv" and
    ends: "\<forall>iv\<in>set ivs. max (fst iv) lo < min (snd iv) hi \<longrightarrow> min (snd iv) hi \<le> c"
    by simp_all
  from sweep_complete[OF run, of "[]"] have
    comp: "\<forall>a b. lo \<le> a \<and> b \<le> hi \<and> min_free \<le> b - a \<and> a < c \<and>
           (\<forall>iv\<in>set ivs. apart lo hi (a, b) iv) \<longrightarrow> (\<exists>g\<in>set out. fst g \<le> a \<and> b \<le> snd g)"
    by simp
  have 1: "\<forall>g\<in>set (map slot_span (free_slots s)). lo \<le> fst g \<and> min_free \<le> snd g - fst g \<and> snd g \<le> hi"
    unfolding fin using shape by auto
  have 2: "sorted_wrt (\<lambda>g h. snd g \<le> fst h) (map slot_span (free_slots s))"
    unfolding fin using shape by (auto simp: sorted_wrt_append)
  have 3: "\<forall>g\<in>set (map slot_span (free_slots s)). \<forall>iv\<in>set ivs. apart lo hi g iv"
    unfolding fin using ap ends by (auto simp: apart_def)
  have 4: "\<exists>g\<in>set (map slot_span (free_slots s)). fst g \<le> a \<and> b \<le> snd g"
    if ab: "lo \<le> a" "b \<le> hi" "min_free \<le> b - a" and free: "\<forall>iv\<in>set ivs. apart lo hi (a, b) iv" for a b
  proof (cases "a < c")
    case True
    with comp ab free have "\<exists>g\<in>set out. fst g \<le> a \<and> b \<le> snd g" by blast
    then show ?thesis unfolding fin by auto
  next
    case False
    with ab min_free_pos have "c < hi \<and> min_free \<le> hi - c" "c \<le> a" by linarith+
    with ab(2) show ?thesis unfolding fin by simp
  qed
  from 1 2 3 4 show ?thesis by blast
qed

lemma analyze_scenario: "analyze_schedule sample_day scenario = Inr scenario_summary"
  by code_simp

lemma analyze_late_start:
  "analyze_schedule sample_day [meeting ''Workshop'' (naive_at 9 5 0) (naive_at 17 0 0)] =
     Inr late_start_summary"
  by code_simp

text \<open>
  C1, as the code has it. When the analysis returns, the free slots lie inside the
  window, are in time order with each ending no later than the next begins, last at
  least fifteen minutes each, and contain no instant that an event clamped to the
  window covers. Conversely every stretch of the window of at least fifteen minutes
  that no event covers lies inside one free slot. A gap shorter than fifteen minutes is
  left to neither, and events may overlap each other.
\<close>

theorem free_slots_are_the_long_gaps:
  assumes "analyze_schedule d evs = Inr s"
  shows "(\<forall>f\<in>set (free_slots s).
            window_lo s \<le> fst (slot_span f) \<and> snd (slot_span f) \<le> window_hi s \<and>
            min_free \<le> snd (slot_span f) - fst (slot_span f)) \<and>
         sorted_wrt (\<lambda>f g. snd (slot_span f) \<le> fst (slot_span g)) (free_slots s) \<and>
         (\<forall>f\<in>set (free_slots s). \<forall>e\<in>set evs. \<forall>t. in_slot f t \<longrightarrow> \<not> covered s e t) \<and>
         (\<forall>a b. window_lo s \<le> a \<and> b \<le> window_hi s \<and> min_free \<le> b - a \<and>
                (\<forall>t. a \<le> t \<and> t < b \<longrightarrow> (\<forall>e\<in>set evs. \<not> covered s e t)) \<longrightarrow>
                (\<exists>f\<in>set (free_slots s). fst (slot_span f) \<le> a \<and> b \<le> snd (slot_span f)))"
proof -
  note spans = free_slot_spans[OF assms]
  from analyze_schedule_parts[OF assms] have "sort_events evs = Inr (events s)" by blast
  from sort_events_sorted[OF this] have set: "set (events s) = set evs" by simp
  have 1: "\<forall>f\<in>set (free_slots s).
            window_lo s \<le> fst (slot_span f) \<and> snd (slot_span f) \<le> window_hi s \<and>
            min_free \<le> snd (slot_span f) - fst (slot_span f)"
    using spans by simp
  have 2: "sorted_wrt (\<lambda>f g. snd (slot_span f) \<le> fst (slot_span g)) (free_slots s)"
    using spans by (simp add: sorted_wrt_map)
  have 3: "\<not> covered s e t" if "f \<in> set (free_slots s)" "e \<in> set evs" "in_slot f t" for f e t
  proof -
    from spans that(1,2) set
    have "apart (window_lo s) (window_hi s) (fst (slot_span f), snd (slot_span f))
            (event_span (first_tzinfo (events s)) e)"
      by simp
    from apart_no_common_instant[OF this] that(3) show ?thesis
      by (simp add: in_slot_def covered_def)
  qed
  have 4: "\<exists>f\<in>set (free_slots s). fst (slot_span f) \<le> a \<and> b \<le> snd (slot_span f)"
    if ab: "window_lo s \<le> a" "b \<le> window_hi s" "min_free \<le> b - a"
      and free: "\<forall>t. a \<le> t \<and> t < b \<longrightarrow> (\<forall>e\<in>set evs. \<not> covered s e t)" for a b
  proof -
    from ab(3) min_free_pos have "a < b" by linarith
    have "apart (window_lo s) (window_hi s) (a, b) (event_span (first_tzinfo (events s)) e)"
      if "e \<in> set evs" for e
      using free that by (intro no_common_instant_apart[OF \<open>a < b\<close>]) (auto simp: covered_def)
    with spans ab set show ?thesis by simp
  qed
  from 1 2 3 4 show ?thesis by blast
qed


theorem free_slots_are_the_long_gaps_witness:
  "analyze_schedule sample_day scenario = Inr scenario_summary \<and>
   window_lo scenario_summary \<le> instant (naive_at 10 30 0) \<and>
   instant (naive_at 13 0 0) \<le> window_hi scenario_summary \<and>
   min_free \<le> instant (naive_at 13 0 0) - instant (naive_at 10 30 0) \<and>
   list_ex (\<lambda>f. fst (slot_span f) \<le> instant (naive_at 10 30 0) \<and>
                instant (naive_at 13 0 0) \<le> snd (slot_span f)) (free_slots scenario_summary) \<and>
   sorted_wrt (\<lambda>f g. snd (slot_span f) \<le> fst (slot_span g)) (free_slots scenario_summary)"
proof -
  note gaps = free_slots_are_the_long_gaps[OF analyze_scenario]
  have w: "window_lo scenario_summary \<le> instant (naive_at 10 30 0)"
    "instant (naive_at 13 0 0) \<le> window_hi scenario_summary"
    "min_free \<le> instant (naive_at 13 0 0) - instant (naive_at 10 30 0)"
    by (simp_all add: window_lo_def window_hi_def scenario_summary_def scenario_def first_tzinfo_def
          meeting_def naive_at_def combine_def instant_def min_free_def hour_us_def minute_us_def)
  have free: "\<forall>t. instant (naive_at 10 30 0) \<le> t \<and> t < instant (naive_at 13 0 0) \<longrightarrow>
                (\<forall>e\<in>set scenario. \<not> covered scenario_summary e t)"
    by (auto simp: covered_def event_span_def in_zone_def scenario_summary_def scenario_def
          first_tzinfo_def meeting_def naive_at_def instant_def hour_us_def minute_us_def)
  from gaps w free
  have "\<exists>f\<in>set (free_slots scenario_summary).
          fst (slot_span f) \<le> instant (naive_at 10 30 0) \<and> instant (naive_at 13 0 0) \<le> snd (slot_span f)"
    by blast
  then have "list_ex (\<lambda>f. fst (slot_span f) \<le> instant (naive_at 10 30 0) \<and>
                instant (naive_at 13 0 0) \<le> snd (slot_span f)) (free_slots scenario_summary)"
    by (simp only: list_ex_iff)
  with gaps w analyze_scenario show ?thesis by blast
qed

text \<open>
  The claim as written, that slots and clamped events together cover the window with no
  gap, fails wherever a gap is shorter than fifteen minutes: with one meeting from 09:05
  to 17:00 there is no free slot, and 09:00 lies in the window but not in the meeting.
\<close>

theorem short_gap_is_not_covered:
  "analyze_schedule sample_day [meeting ''Workshop'' (naive_at 9 5 0) (naive_at 17 0 0)] =
     Inr late_start_summary \<and>
   free_slots late_start_summary = [] \<and>
   window_lo late_start_summary \<le> instant (naive_at 9 0 0) \<and>
   instant (naive_at 9 0 0) < window_hi late_start_summary \<and>
   \<not> covered late_start_summary (meeting ''Workshop'' (naive_at 9 5 0) (naive_at 17 0 0))
       (instant (naive_at 9 0 0))"
proof -
  have "free_slots late_start_summary = []" by (simp add: late_start_summary_def)
  moreover have "window_lo late_start_summary \<le> instant (naive_at 9 0 0)"
    "instant (naive_at 9 0 0) < window_hi late_start_summary"
    by (simp_all add: window_lo_def window_hi_def late_start_summary_def first_tzinfo_def
          meeting_def naive_at_def combine_def instant_def hour_us_def minute_us_def)
  moreover have "\<not> covered late_start_summary (meeting ''Workshop'' (naive_at 9 5 0) (naive_at 17 0 0))
       (instant (naive_at 9 0 0))"
    by (simp add: covered_def event_span_def in_zone_def late_start_summary_def first_tzinfo_def
          meeting_def naive_at_def instant_def hour_us_def minute_us_def)
  ultimately show ?thesis using analyze_late_start by simp
qed

subsection \<open>Degenerate events\<close>

lemma degenerate_in_zone:
  assumes "degenerate e"
  shows "instant (in_zone tz (end_time e)) \<le> instant (in_zone tz (start_time e))"
  using assms
  by (auto simp: degenerate_def dt_lt_def in_zone_def to_tz_def instant_def split: option.splits)

lemma free_step_degenerate:
  assumes "degenerate e" "free_step tz ds de st e = Inr st'"
  shows "st' = st"
proof -
  from assms(2) obtain sc ec inside where
    sc: "py_max (in_zone tz (start_time e)) ds = Inr sc" and
    ec: "py_min (in_zone tz (end_time e)) de = Inr ec" and
    inside: "dt_lt sc ec = Inr inside" and
    body: "(if inside then take_event st sc ec else Inr st) = Inr st'"
    unfolding free_step_def Let_def by (auto simp: bind_err_Inr)
  from py_max_instant[OF sc] py_min_instant[OF ec] degenerate_in_zone[OF assms(1), of tz]
  have "instant ec \<le> instant sc" by simp
  with dt_lt_instant[OF inside] have "\<not> inside" by simp
  with body show ?thesis by simp
qed

lemma free_loop_proper:
  "free_loop tz ds de st evs = Inr st' \<Longrightarrow> free_loop tz ds de st (proper evs) = Inr st'"
proof (induction evs arbitrary: st)
  case Nil
  then show ?case by (simp add: proper_def)
next
  case (Cons e evs)
  from Cons.prems obtain st1 where step: "free_step tz ds de st e = Inr st1"
    and rest: "free_loop tz ds de st1 evs = Inr st'"
    by (auto simp: bind_err_Inr)
  show ?case
  proof (cases "degenerate e")
    case True
    from free_step_degenerate[OF True step] rest Cons.IH show ?thesis
      using True by (simp add: proper_def)
  next
    case False
    with step Cons.IH[OF rest] show ?thesis by (simp add: proper_def bind_err_def)
  qed
qed

lemma degenerate_instant: "degenerate e \<Longrightarrow> instant (end_time e) \<le> instant (start_time e)"
  by (auto simp: degenerate_def dt_lt_def instant_def split: option.splits)

lemma overlap_degenerate:
  assumes "degenerate e1 \<or> degenerate e2" "overlap e1 e2 = Inr b"
  shows "overlap e1 e2 = Inr False"
proof -
  from assms(1) have "instant (end_time e1) \<le> instant (start_time e1) \<or>
                      instant (end_time e2) \<le> instant (start_time e2)"
    using degenerate_instant by blast
  with overlap_instant[OF assms(2)] have "\<not> b" by auto
  with assms(2) show ?thesis by simp
qed

lemma conflict_inner_defined:
  "conflict_inner e xs cs = Inr r \<Longrightarrow> \<forall>x\<in>set xs. \<exists>b. overlap e x = Inr b"
  by (induction xs arbitrary: cs) (auto simp: bind_err_Inr)

lemma conflict_inner_proper:
  "\<forall>x\<in>set xs. degenerate x \<longrightarrow> overlap e x = Inr False \<Longrightarrow>
   conflict_inner e (proper xs) cs = conflict_inner e xs cs"
  by (induction xs arbitrary: cs) (auto simp: proper_def bind_err_def)

lemma conflict_inner_none:
  "\<forall>x\<in>set xs. overlap e x = Inr False \<Longrightarrow> conflict_inner e xs cs = Inr cs"
  by (induction xs arbitrary: cs) (auto simp: bind_err_def)

lemma conflict_outer_proper:
  "conflict_outer xs cs = Inr r \<Longrightarrow> conflict_outer (proper xs) cs = Inr r"
proof (induction xs arbitrary: cs)
  case Nil
  then show ?case by (simp add: proper_def)
next
  case (Cons e xs)
  from Cons.prems obtain c1 where inner: "conflict_inner e xs cs = Inr c1"
    and outer: "conflict_outer xs c1 = Inr r"
    by (auto simp: bind_err_Inr)
  note defined = conflict_inner_defined[OF inner]
  show ?case
  proof (cases "degenerate e")
    case True
    with defined have "\<forall>x\<in>set xs. overlap e x = Inr False"
      by (meson overlap_degenerate)
    from conflict_inner_none[OF this, of cs] inner have "c1 = cs" by simp
    with Cons.IH[OF outer] True show ?thesis by (simp add: proper_def)
  next
    case False
    from defined have "\<forall>x\<in>set xs. degenerate x \<longrightarrow> overlap e x = Inr False"
      by (meson overlap_degenerate)
    from conflict_inner_proper[OF this, of cs] inner
    have "conflict_inner e (proper xs) cs = Inr c1" by simp
    with Cons.IH[OF outer] False show ?thesis by (simp add: proper_def bind_err_def)
  qed
qed

lemma sort_events_proper:
  assumes "sort_events evs = Inr sorted_events"
  shows "sort_events (proper evs) = Inr (proper sorted_events)"
proof -
  from assms have "\<not> (list_ex naive_start evs \<and> list_ex (\<lambda>e. \<not> naive_start e) evs)"
    by (auto simp: sort_events_def split: if_splits)
  then have "\<not> (list_ex naive_start (proper evs) \<and> list_ex (\<lambda>e. \<not> naive_start e) (proper evs))"
    by (auto simp: list_ex_iff proper_def)
  then show ?thesis
    using sort_events_sorted[OF assms] by (simp add: sort_events_def proper_def filter_sort)
qed

lemma conflict_inner_genuine:
  "conflict_inner e xs cs = Inr r \<Longrightarrow> \<forall>c\<in>set cs. genuine c \<Longrightarrow> \<forall>c\<in>set r. genuine c"
proof (induction xs arbitrary: cs)
  case Nil
  then show ?case by simp
next
  case (Cons x xs)
  from Cons.prems(1) obtain ov where ov: "overlap e x = Inr ov"
    and rest: "conflict_inner e xs
         (if ov \<and> \<not> conflict_exists e x cs then cs @ [new_conflict e x] else cs) = Inr r"
    by (auto simp: bind_err_Inr)
  have "genuine (new_conflict e x)" if ov
  proof -
    from that ov have "overlap e x = Inr True" by simp
    then show ?thesis unfolding genuine_def by (intro exI[of _ e] exI[of _ x]) simp
  qed
  then have "\<forall>c\<in>set (if ov \<and> \<not> conflict_exists e x cs then cs @ [new_conflict e x] else cs). genuine c"
    using Cons.prems(2) by simp
  from Cons.IH[OF rest this] show ?case .
qed

lemma conflict_outer_genuine:
  "conflict_outer xs cs = Inr r \<Longrightarrow> \<forall>c\<in>set cs. genuine c \<Longrightarrow> \<forall>c\<in>set r. genuine c"
proof (induction xs arbitrary: cs)
  case Nil
  then show ?case by simp
next
  case (Cons e xs)
  from Cons.prems(1) obtain c1 where inner: "conflict_inner e xs cs = Inr c1"
    and outer: "conflict_outer xs c1 = Inr r"
    by (auto simp: bind_err_Inr)
  from Cons.IH[OF outer conflict_inner_genuine[OF inner Cons.prems(2)]] show ?case .
qed

lemma event_eq_degenerate: "event_eq a b \<Longrightarrow> degenerate a \<Longrightarrow> degenerate b"
  by (auto simp: event_eq_def degenerate_def dt_eq_def dt_lt_def split: option.splits)

lemma genuine_not_degenerate:
  assumes "genuine c" "degenerate e"
  shows "\<not> event_in e (conflicting_events c)"
proof
  assume "event_in e (conflicting_events c)"
  moreover from assms(1) obtain a b where c: "c = new_conflict a b" and ov: "overlap a b = Inr True"
    by (auto simp: genuine_def)
  ultimately have "event_eq e a \<or> event_eq e b"
    by (simp add: event_in_def new_conflict_def)
  with assms(2) have "degenerate a \<or> degenerate b" using event_eq_degenerate by blast
  from overlap_degenerate[OF this ov] ov show False by simp
qed

lemma analyze_scenario_with_broken:
  "analyze_schedule sample_day (broken_meeting # scenario) =
     Inr (scenario_summary\<lparr>events :=
       [meeting ''A'' (naive_at 9 0 0) (naive_at 10 0 0),
        meeting ''B'' (naive_at 9 30 0) (naive_at 10 30 0),
        broken_meeting,
        meeting ''C'' (naive_at 13 0 0) (naive_at 14 0 0)]\<rparr>)"
  by code_simp

lemma proper_scenario:
  "proper [meeting ''A'' (naive_at 9 0 0) (naive_at 10 0 0),
           meeting ''B'' (naive_at 9 30 0) (naive_at 10 30 0),
           broken_meeting,
           meeting ''C'' (naive_at 13 0 0) (naive_at 14 0 0)] = scenario"
  "proper (broken_meeting # scenario) = scenario"
  by code_simp+

text \<open>
  C5, as the code has it. When the analysis of a list returns, the analysis of the list
  without its degenerate events returns the same free slots and the same conflicts,
  provided that leaving them out does not change which time zone anchors the window (the
  \<open>tzinfo\<close> of the first event in time order). No degenerate event is in a reported
  conflict.
\<close>

theorem degenerate_events_leave_no_trace:
  assumes "analyze_schedule d evs = Inr s"
    and "first_tzinfo (proper (events s)) = first_tzinfo (events s)"
  shows "analyze_schedule d (proper evs) = Inr (s\<lparr>events := proper (events s)\<rparr>) \<and>
         (\<forall>c\<in>set (conflicts s). \<forall>e. degenerate e \<longrightarrow> \<not> event_in e (conflicting_events c))"
proof -
  from analyze_schedule_parts[OF assms(1)] obtain st where
    srt: "sort_events evs = Inr (events s)" and dt: "summary_date s = d" and
    loop: "free_loop (first_tzinfo (events s)) (combine d (9 * hour_us) (first_tzinfo (events s)))
       (combine d (17 * hour_us) (first_tzinfo (events s)))
       (combine d (9 * hour_us) (first_tzinfo (events s)), []) (events s) = Inr st" and
    tail: "free_tail (combine d (17 * hour_us) (first_tzinfo (events s))) st = Inr (free_slots s)" and
    cf: "conflict_outer (events s) [] = Inr (conflicts s)"
    by blast
  have "s\<lparr>events := proper (events s)\<rparr> =
        \<lparr>summary_date = d, events = proper (events s), free_slots = free_slots s, conflicts = conflicts s\<rparr>"
    using dt by simp
  then have "analyze_schedule d (proper evs) = Inr (s\<lparr>events := proper (events s)\<rparr>)"
    unfolding analyze_schedule_def Let_def
    using sort_events_proper[OF srt] free_loop_proper[OF loop] tail conflict_outer_proper[OF cf] assms(2)
    by (simp add: bind_err_def)
  moreover from conflict_outer_genuine[OF cf] have "\<forall>c\<in>set (conflicts s). genuine c" by simp
  then have "\<forall>c\<in>set (conflicts s). \<forall>e. degenerate e \<longrightarrow> \<not> event_in e (conflicting_events c)"
    using genuine_not_degenerate by blast
  ultimately show ?thesis by blast
qed

theorem degenerate_events_leave_no_trace_witness:
  "analyze_schedule sample_day (broken_meeting # scenario) =
     Inr (scenario_summary\<lparr>events :=
       [meeting ''A'' (naive_at 9 0 0) (naive_at 10 0 0),
        meeting ''B'' (naive_at 9 30 0) (naive_at 10 30 0),
        broken_meeting,
        meeting ''C'' (naive_at 13 0 0) (naive_at 14 0 0)]\<rparr>) \<and>
   degenerate broken_meeting \<and>
   analyze_schedule sample_day scenario = Inr scenario_summary"
proof -
  have anchor: "first_tzinfo (proper (events (scenario_summary\<lparr>events :=
       [meeting ''A'' (naive_at 9 0 0) (naive_at 10 0 0),
        meeting ''B'' (naive_at 9 30 0) (naive_at 10 30 0),
        broken_meeting,
        meeting ''C'' (naive_at 13 0 0) (naive_at 14 0 0)]\<rparr>))) =
     first_tzinfo (events (scenario_summary\<lparr>events :=
       [meeting ''A'' (naive_at 9 0 0) (naive_at 10 0 0),
        meeting ''B'' (naive_at 9 30 0) (naive_at 10 30 0),
        broken_meeting,
        meeting ''C'' (naive_at 13 0 0) (naive_at 14 0 0)]\<rparr>))"
    by (simp add: proper_scenario) (simp add: scenario_def first_tzinfo_def)
  have same: "scenario_summary\<lparr>events := scenario\<rparr> = scenario_summary"
    by (simp add: scenario_summary_def)
  have "degenerate broken_meeting" by code_simp
  with degenerate_events_leave_no_trace[OF analyze_scenario_with_broken anchor]
    analyze_scenario_with_broken
  show ?thesis by (simp add: proper_scenario same)
qed

text \<open>
  The claim as written, that the output is as if the degenerate event were absent,
  fails when that event is the first in time order: its \<open>tzinfo\<close> still anchors the
  window. A broken entry at 06:00 UTC puts the window at 09:00 to 17:00 UTC, where a call
  from 12:00 to 13:00 at UTC+5 is outside working hours; without the entry the window is
  09:00 to 17:00 at UTC+5 and the call splits it.
\<close>

theorem degenerate_first_event_moves_window:
  "degenerate early_broken_meeting \<and>
   bind_err (analyze_schedule sample_day [early_broken_meeting, call_meeting])
     (\<lambda>s. Inr (map duration_minutes (free_slots s))) = Inr [480] \<and>
   bind_err (analyze_schedule sample_day [call_meeting])
     (\<lambda>s. Inr (map duration_minutes (free_slots s))) = Inr [180, 240]"
  by code_simp

subsection \<open>Conflicts\<close>

lemma event_eq_sym: "event_eq a b \<Longrightarrow> event_eq b a"
  by (auto simp: event_eq_def dt_eq_def split: option.splits)

lemma event_eq_trans: "event_eq a b \<Longrightarrow> event_eq b c \<Longrightarrow> event_eq a c"
  by (auto simp: event_eq_def dt_eq_def split: option.splits)

lemma conflict_exists_snoc:
  "conflict_exists a b (cs @ [new_conflict e x]) \<longleftrightarrow>
     conflict_exists a b cs \<or> (event_eq a e \<or> event_eq a x) \<and> (event_eq b e \<or> event_eq b x)"
  by (auto simp: conflict_exists_def event_in_def new_conflict_def)

lemma conflict_inner_distinct:
  assumes "conflict_inner e xs cs = Inr r"
    "\<forall>x\<in>set xs. \<not> conflict_exists e x cs" "\<forall>x\<in>set xs. \<not> event_eq e x"
    "sorted_wrt (\<lambda>a b. \<not> event_eq a b) xs"
  shows "r = cs @ map (new_conflict e) (filter (\<lambda>x. overlap e x = Inr True) xs)"
  using assms
proof (induction xs arbitrary: cs)
  case Nil
  then show ?case by simp
next
  case (Cons x xs)
  from Cons.prems(1) obtain ov where ov: "overlap e x = Inr ov"
    and rest: "conflict_inner e xs
         (if ov \<and> \<not> conflict_exists e x cs then cs @ [new_conflict e x] else cs) = Inr r"
    by (auto simp: bind_err_Inr)
  define cs1 where "cs1 = (if ov then cs @ [new_conflict e x] else cs)"
  from rest Cons.prems(2) have run: "conflict_inner e xs cs1 = Inr r" by (simp add: cs1_def)
  have "\<not> conflict_exists e y cs1" if "y \<in> set xs" for y
  proof -
    from that Cons.prems(2,3,4) have "\<not> conflict_exists e y cs" "\<not> event_eq e y" "\<not> event_eq x y"
      by auto
    then have "\<not> event_eq y e" "\<not> event_eq y x" using event_eq_sym by blast+
    with \<open>\<not> conflict_exists e y cs\<close> show ?thesis by (simp add: cs1_def conflict_exists_snoc)
  qed
  then have 1: "\<forall>y\<in>set xs. \<not> conflict_exists e y cs1" by blast
  from Cons.prems(3,4) have 2: "\<forall>y\<in>set xs. \<not> event_eq e y" "sorted_wrt (\<lambda>a b. \<not> event_eq a b) xs"
    by simp_all
  from Cons.IH[OF run 1 2] ov show ?case by (simp add: cs1_def)
qed

lemma conflict_exists_append_row:
  assumes "\<not> conflict_exists a b cs" "\<not> event_eq a e" "\<not> event_eq b e" "\<not> event_eq a b"
  shows "\<not> conflict_exists a b (cs @ map (new_conflict e) ys)"
proof -
  have "\<not> (event_in a (conflicting_events (new_conflict e y)) \<and>
            event_in b (conflicting_events (new_conflict e y)))" for y
  proof
    assume "event_in a (conflicting_events (new_conflict e y)) \<and>
            event_in b (conflicting_events (new_conflict e y))"
    with assms(2,3) have "event_eq a y" "event_eq b y"
      by (auto simp: event_in_def new_conflict_def)
    with assms(4) show False using event_eq_sym event_eq_trans by blast
  qed
  with assms(1) show ?thesis by (auto simp: conflict_exists_def list_ex_iff)
qed

lemma conflict_outer_distinct:
  assumes "conflict_outer xs cs = Inr r"
    "sorted_wrt (\<lambda>a b. \<not> event_eq a b \<and> \<not> conflict_exists a b cs) xs"
  shows "r = cs @ all_overlaps xs"
  using assms
proof (induction xs arbitrary: cs)
  case Nil
  then show ?case by simp
next
  case (Cons e xs)
  from Cons.prems(1) obtain c1 where inner: "conflict_inner e xs cs = Inr c1"
    and outer: "conflict_outer xs c1 = Inr r"
    by (auto simp: bind_err_Inr)
  from Cons.prems(2) have first: "\<forall>x\<in>set xs. \<not> conflict_exists e x cs" "\<forall>x\<in>set xs. \<not> event_eq e x"
    and rest: "sorted_wrt (\<lambda>a b. \<not> event_eq a b \<and> \<not> conflict_exists a b cs) xs"
    by simp_all
  from rest have diff: "sorted_wrt (\<lambda>a b. \<not> event_eq a b) xs"
    by (rule sorted_wrt_mono_rel[rotated]) simp
  from conflict_inner_distinct[OF inner first diff]
  have c1: "c1 = cs @ map (new_conflict e) (filter (\<lambda>x. overlap e x = Inr True) xs)" .
  have "sorted_wrt (\<lambda>a b. \<not> event_eq a b \<and> \<not> conflict_exists a b c1) xs"
  proof (rule sorted_wrt_mono_rel[OF _ rest])
    fix a b
    assume "a \<in> set xs" "b \<in> set xs" "\<not> event_eq a b \<and> \<not> conflict_exists a b cs"
    with first(2) have "\<not> conflict_exists a b cs" "\<not> event_eq a e" "\<not> event_eq b e" "\<not> event_eq a b"
      using event_eq_sym by blast+
    from conflict_exists_append_row[OF this] \<open>\<not> event_eq a b\<close>
    show "\<not> event_eq a b \<and> \<not> conflict_exists a b c1" unfolding c1 by simp
  qed
  from Cons.IH[OF outer this] c1 show ?case by simp
qed

text \<open>
  When the events of the sorted list are pairwise different, the scan suppresses nothing:
  the conflicts are one for each overlapping pair, in the order of the double loop.
\<close>

lemma conflicts_when_all_different:
  assumes "analyze_schedule d evs = Inr s" "sorted_wrt (\<lambda>a b. \<not> event_eq a b) (events s)"
  shows "conflicts s = all_overlaps (events s)"
proof -
  from analyze_schedule_parts[OF assms(1)] have cf: "conflict_outer (events s) [] = Inr (conflicts s)"
    by blast
  have "sorted_wrt (\<lambda>a b. \<not> event_eq a b \<and> \<not> conflict_exists a b []) (events s)"
    using assms(2) by (simp add: conflict_exists_def)
  from conflict_outer_distinct[OF cf this] show ?thesis by simp
qed


text \<open>
  C2. The claim is that a pair of events is reported if and only if the two overlap, each
  pair once. The scan suppresses a pair when some earlier conflict contains an equal of
  each of its two events, which is not the same as the pair having been reported: for
  two equal entries \<open>A\<close>, the pair of them is suppressed by the earlier conflict of \<open>B\<close>
  with \<open>A\<close>. The two entries do overlap, and the only conflict reported is that of \<open>B\<close>
  with \<open>A\<close>; when the list is the two entries alone the pair is reported.
\<close>

theorem equal_events_overlap_unreported:
  "overlap (meeting ''A'' (naive_at 9 0 0) (naive_at 10 0 0))
           (meeting ''A'' (naive_at 9 0 0) (naive_at 10 0 0)) = Inr True \<and>
   bind_err (analyze_schedule sample_day twice_booked)
     (\<lambda>s. Inr (map conflicting_events (conflicts s))) =
     Inr [[meeting ''B'' (naive_at 8 30 0) (naive_at 9 30 0),
           meeting ''A'' (naive_at 9 0 0) (naive_at 10 0 0)]] \<and>
   bind_err (analyze_schedule sample_day
       [meeting ''A'' (naive_at 9 0 0) (naive_at 10 0 0),
        meeting ''A'' (naive_at 9 0 0) (naive_at 10 0 0)])
     (\<lambda>s. Inr (map conflicting_events (conflicts s))) =
     Inr [[meeting ''A'' (naive_at 9 0 0) (naive_at 10 0 0),
           meeting ''A'' (naive_at 9 0 0) (naive_at 10 0 0)]]"
  by code_simp

subsection \<open>Lists on which the analysis returns\<close>

text \<open>
  The hypothesis of the theorems above, that the analysis returns, holds for every list
  whose times are all naive or all aware.
\<close>

lemma dt_lt_kind:
  "(tzinfo a = None) = (tzinfo b = None) \<Longrightarrow> dt_lt a b = Inr (instant a < instant b)"
  by (auto simp: dt_lt_def instant_def split: option.splits)

lemma dt_sub_kind:
  "(tzinfo a = None) = (tzinfo b = None) \<Longrightarrow> dt_sub a b = Inr (instant a - instant b)"
  by (auto simp: dt_sub_def instant_def split: option.splits)

lemma py_max_kind:
  "(tzinfo a = None) = (tzinfo b = None) \<Longrightarrow> py_max a b = Inr (if instant a < instant b then b else a)"
  by (simp add: py_max_def dt_lt_kind bind_err_def)

lemma py_min_kind:
  "(tzinfo a = None) = (tzinfo b = None) \<Longrightarrow> py_min a b = Inr (if instant b < instant a then b else a)"
  by (simp add: py_min_def dt_lt_kind[of b a] bind_err_def)

lemma take_event_returns:
  assumes "tzinfo (fst st) = tz" "tzinfo sc = tz" "tzinfo ec = tz"
  shows "\<exists>st'. take_event st sc ec = Inr st' \<and> tzinfo (fst st') = tz"
  using assms unfolding take_event_def add_slot_def
  by (simp add: dt_lt_kind dt_sub_kind py_max_kind bind_err_def)

lemma in_zone_tzinfo:
  "tz = None \<longrightarrow> tzinfo a = None \<Longrightarrow> tzinfo (in_zone tz a) = tz"
  by (auto simp: in_zone_def to_tz_def split: option.splits)

lemma free_step_returns:
  assumes "tzinfo ds = tz" "tzinfo de = tz" "tzinfo (fst st) = tz"
    "tz = None \<longrightarrow> tzinfo (start_time e) = None \<and> tzinfo (end_time e) = None"
  shows "\<exists>st'. free_step tz ds de st e = Inr st' \<and> tzinfo (fst st') = tz"
proof -
  have s: "tzinfo (in_zone tz (start_time e)) = tz" and e: "tzinfo (in_zone tz (end_time e)) = tz"
    using assms(4) by (simp_all add: in_zone_tzinfo)
  define sc where "sc = (if instant (in_zone tz (start_time e)) < instant ds then ds else in_zone tz (start_time e))"
  define ec where "ec = (if instant de < instant (in_zone tz (end_time e)) then de else in_zone tz (end_time e))"
  have sc: "py_max (in_zone tz (start_time e)) ds = Inr sc" "tzinfo sc = tz"
    using s assms(1) by (simp_all add: py_max_kind sc_def)
  have ec: "py_min (in_zone tz (end_time e)) de = Inr ec" "tzinfo ec = tz"
    using e assms(2) by (simp_all add: py_min_kind ec_def)
  have lt: "dt_lt sc ec = Inr (instant sc < instant ec)"
    using sc(2) ec(2) by (simp add: dt_lt_kind)
  show ?thesis
  proof (cases "instant sc < instant ec")
    case True
    with take_event_returns[OF assms(3) sc(2) ec(2)]
    show ?thesis unfolding free_step_def Let_def sc(1) ec(1) by (simp add: bind_err_def lt)
  next
    case False
    then have "free_step tz ds de st e = Inr st"
      unfolding free_step_def Let_def sc(1) ec(1) by (simp add: bind_err_def lt)
    with assms(3) show ?thesis by blast
  qed
qed

lemma free_loop_returns:
  assumes "tzinfo ds = tz" "tzinfo de = tz" "tzinfo (fst st) = tz"
    "\<forall>e\<in>set evs. tz = None \<longrightarrow> tzinfo (start_time e) = None \<and> tzinfo (end_time e) = None"
  shows "\<exists>st'. free_loop tz ds de st evs = Inr st' \<and> tzinfo (fst st') = tz"
  using assms(3,4)
proof (induction evs arbitrary: st)
  case Nil
  then show ?case by simp
next
  case (Cons e evs)
  from Cons.prems(2) have here: "tz = None \<longrightarrow> tzinfo (start_time e) = None \<and> tzinfo (end_time e) = None"
    and later: "\<forall>e\<in>set evs. tz = None \<longrightarrow> tzinfo (start_time e) = None \<and> tzinfo (end_time e) = None"
    by simp_all
  from free_step_returns[OF assms(1,2) Cons.prems(1) here]
  obtain st1 where step: "free_step tz ds de st e = Inr st1" and tz1: "tzinfo (fst st1) = tz"
    by blast
  from Cons.IH[OF tz1 later] step show ?case by (simp add: bind_err_def)
qed

lemma free_tail_returns:
  assumes "tzinfo de = tz" "tzinfo (fst st) = tz"
  shows "\<exists>slots. free_tail de st = Inr slots"
  using assms unfolding free_tail_def add_slot_def
  by (simp add: dt_lt_kind dt_sub_kind bind_err_def)

lemma overlap_returns:
  assumes "(tzinfo (start_time a) = None) = k" "(tzinfo (end_time a) = None) = k"
    "(tzinfo (start_time b) = None) = k" "(tzinfo (end_time b) = None) = k"
  shows "\<exists>ov. overlap a b = Inr ov"
  using assms unfolding overlap_def
  by (simp add: py_max_kind py_min_kind dt_lt_kind bind_err_def)

lemma conflict_inner_returns:
  "\<forall>x\<in>set xs. \<exists>ov. overlap e x = Inr ov \<Longrightarrow> \<exists>r. conflict_inner e xs cs = Inr r"
  by (induction xs arbitrary: cs) (auto simp: bind_err_def)

lemma conflict_outer_returns:
  "sorted_wrt (\<lambda>a b. \<exists>ov. overlap a b = Inr ov) xs \<Longrightarrow> \<exists>r. conflict_outer xs cs = Inr r"
proof (induction xs arbitrary: cs)
  case Nil
  then show ?case by simp
next
  case (Cons e xs)
  then have "\<forall>x\<in>set xs. \<exists>ov. overlap e x = Inr ov" by simp
  from conflict_inner_returns[OF this] obtain c1 where "conflict_inner e xs cs = Inr c1" by blast
  with Cons show ?case by (simp add: bind_err_def)
qed

lemma analysis_returns_on_uniform_times:
  assumes "uniform evs"
  shows "\<exists>s. analyze_schedule d evs = Inr s"
proof -
  define k where "k = list_all (\<lambda>e. tzinfo (start_time e) = None \<and> tzinfo (end_time e) = None) evs"
  have kinds: "(tzinfo (start_time e) = None) = k \<and> (tzinfo (end_time e) = None) = k"
    if "e \<in> set evs" for e
    using assms that unfolding uniform_def k_def list_all_iff by (cases evs) auto
  define sorted_events where "sorted_events = sort_key (\<lambda>e. instant (start_time e)) evs"
  have set: "set sorted_events = set evs" by (simp add: sorted_events_def)
  have srt: "sort_events evs = Inr sorted_events"
    using kinds by (auto simp: sort_events_def list_ex_iff naive_start_def sorted_events_def)
  define tz where "tz = first_tzinfo sorted_events"
  have "tz = None \<longrightarrow> k \<or> evs = []"
    using kinds set unfolding tz_def first_tzinfo_def by (cases sorted_events) auto
  with kinds set have ok: "\<forall>e\<in>set sorted_events. tz = None \<longrightarrow>
      tzinfo (start_time e) = None \<and> tzinfo (end_time e) = None"
    by auto
  have "\<exists>st. free_loop tz (combine d (9 * hour_us) tz) (combine d (17 * hour_us) tz)
             (combine d (9 * hour_us) tz, []) sorted_events = Inr st \<and> tzinfo (fst st) = tz"
    by (rule free_loop_returns[OF _ _ _ ok]) (simp_all add: combine_def)
  then obtain st where loop: "free_loop tz (combine d (9 * hour_us) tz) (combine d (17 * hour_us) tz)
             (combine d (9 * hour_us) tz, []) sorted_events = Inr st" and "tzinfo (fst st) = tz"
    by blast
  from free_tail_returns[OF _ this(2), of "combine d (17 * hour_us) tz"]
  obtain slots where tail: "free_tail (combine d (17 * hour_us) tz) st = Inr slots"
    by (auto simp: combine_def)
  have "\<exists>ov. overlap a b = Inr ov" if "a \<in> set sorted_events" "b \<in> set sorted_events" for a b
    using kinds that set by (intro overlap_returns[of _ k]) auto
  then have "sorted_wrt (\<lambda>a b. \<exists>ov. overlap a b = Inr ov) sorted_events"
    by (simp add: sorted_wrt_iff_nth_less)
  from conflict_outer_returns[OF this] obtain cs where "conflict_outer sorted_events [] = Inr cs"
    by blast
  with srt loop tail show ?thesis
    unfolding analyze_schedule_def Let_def tz_def by (simp add: bind_err_def)
qed


end
